theory Spec2Isabelle
  imports Complex_Main "HOL-Library.Multiset"
begin

section \<open>LaueTools: grain graph and harmonics filter\<close>

text \<open>
  A shallow embedding of the parts of \<^verbatim>\<open>LaueTools/graingraph.py\<close> and
  \<^verbatim>\<open>LaueTools/CrystalParameters.py\<close> that build the adjacency matrix of
  reflections, select the best clique, select the reflections of an experiment and
  filter harmonic reflections.

  Conventions of the embedding:
  \<^item> numpy floats are modelled as \<open>real\<close>: comparisons and differences are exact;
  \<^item> a numpy 1-D array is a list, a 2-D array a list of rows;
  \<^item> a Python exception is a value \<open>Inl e\<close> of the result type \<open>py_error + 'a\<close>;
  \<^item> \<^verbatim>\<open>print\<close> calls write to the console only and are left out.
\<close>

subsection \<open>Errors and numpy helpers\<close>

datatype py_error = ValueError | IndexError | UnboundLocalError

text \<open>
  \<^verbatim>\<open>np.argmax\<close> and \<^verbatim>\<open>np.argmin\<close> return the index of the first
  occurrence of the extreme value. Both raise \<^verbatim>\<open>ValueError\<close> on an empty
  array: the callers below test for emptiness before they use the index.
\<close>

fun argmax :: "'a::linorder list \<Rightarrow> nat" where
  "argmax [] = 0"
| "argmax [x] = 0"
| "argmax (x # xs) = (let k = argmax xs in if xs ! k \<le> x then 0 else Suc k)"

fun argmin :: "'a::linorder list \<Rightarrow> nat" where
  "argmin [] = 0"
| "argmin [x] = 0"
| "argmin (x # xs) = (let k = argmin xs in if x \<le> xs ! k then 0 else Suc k)"

text \<open>
  \<^verbatim>\<open>np.argsort\<close>: the indices that sort the array in ascending order. The
  model is the stable sort; numpy's default kind does not promise an order among equal
  keys, and the theorems below state only what holds for any order of ties.
\<close>

definition argsort :: "'a::linorder list \<Rightarrow> nat list" where
  "argsort xs = sort_key (\<lambda>i. xs ! i) [0..<length xs]"

subsection \<open>generaltools.py: \<^verbatim>\<open>find_closest\<close>\<close>

text \<open>
  Modelled from the spec: \<^verbatim>\<open>GT.find_closest\<close> of \<^verbatim>\<open>generaltools.py\<close>, which is not
  among the sources at hand. The spec (section 4.2): for a distance, locate the
  ReferenceTable entry nearest to it "via an ordered/binary search", and accept it
  "iff |nearest - distance| <= ang_tol"; "if ReferenceTable is empty, the adjacency
  matrix is all-false". The caller in \<^verbatim>\<open>graingraph.py\<close> documents the result: component
  0 holds, for each target, the index of its closest table entry, and component 1 the
  indices of the targets "qui ont une distance connue" (that match a table entry).

  \<open>searchsorted\<close> is the binary search for the leftmost insertion point of \<open>v\<close> in
  the sorted table; the nearest entry is the one before or the one at that point.
\<close>

function searchsorted_from :: "real list \<Rightarrow> real \<Rightarrow> nat \<Rightarrow> nat \<Rightarrow> nat" where
  "searchsorted_from a v lo hi =
     (if lo < hi then
        (let mid = (lo + hi) div 2 in
         if a ! mid < v then searchsorted_from a v (Suc mid) hi
         else searchsorted_from a v lo mid)
      else lo)"
  by pat_completeness auto
termination
  by (relation "measure (\<lambda>(a, v, lo, hi). hi - lo)") auto

declare searchsorted_from.simps [simp del]

definition searchsorted :: "real list \<Rightarrow> real \<Rightarrow> nat" where
  "searchsorted a v = searchsorted_from a v 0 (length a)"

definition nearest_index :: "real list \<Rightarrow> real \<Rightarrow> nat" where
  "nearest_index ReferenceTable d =
     (let k = searchsorted ReferenceTable d in
      if length ReferenceTable \<le> k then length ReferenceTable - 1
      else if k = 0 then 0
      else if d - ReferenceTable ! (k - 1) \<le> ReferenceTable ! k - d then k - 1
      else k)"

definition within_tol :: "real list \<Rightarrow> real \<Rightarrow> real \<Rightarrow> bool" where
  "within_tol ReferenceTable d ang_tol =
     (ReferenceTable \<noteq> []
      \<and> \<bar>ReferenceTable ! nearest_index ReferenceTable d - d\<bar> \<le> ang_tol)"

definition find_closest :: "real list \<Rightarrow> real list \<Rightarrow> real \<Rightarrow> nat list \<times> nat list" where
  "find_closest input_array target_array tol =
     (map (nearest_index input_array) target_array,
      filter (\<lambda>j. within_tol input_array (target_array ! j) tol) [0..<length target_array])"

subsection \<open>graingraph.py: \<^verbatim>\<open>create_AdjencyMatrix\<close>\<close>

text \<open>
  \<^verbatim>\<open>
  def create_AdjencyMatrix(Tabledistance, ReferenceTable, ang_tol, nb_of_spots):
      mytab = np.zeros(nb_of_spots * nb_of_spots)
      john = [mytab.put(GT.find_closest(ReferenceTable, Tabledistance[elem], ang_tol)[1]
                        + elem * nb_of_spots, 1)
              for elem in np.arange(nb_of_spots)]
      adjencymat = np.reshape(mytab, (nb_of_spots, nb_of_spots))
      return adjencymat
  \<close>
  The entries \<open>0.0\<close> and \<open>1.0\<close> of \<open>mytab\<close> are modelled as \<open>False\<close> and \<open>True\<close>.
  \<open>nb_of_spots\<close> is a length (the docstring: \<^verbatim>\<open>nb_of_spots=len(Tabledistance)\<close>) and
  so a natural number.

  \<^verbatim>\<open>ndarray.put\<close> raises \<^verbatim>\<open>IndexError\<close> at an index outside the array (its
  default mode), and \<^verbatim>\<open>Tabledistance[elem]\<close> raises it when the table has no row
  \<open>elem\<close>. \<open>fill_rows\<close> is the list comprehension: it threads \<open>mytab\<close> through the
  rows. \<^verbatim>\<open>np.reshape\<close> cuts the flat array into rows; \<open>mytab\<close> has
  \<open>nb_of_spots * nb_of_spots\<close> entries, so its size always fits.
\<close>

fun put :: "bool list \<Rightarrow> nat list \<Rightarrow> bool \<Rightarrow> py_error + bool list" where
  "put a [] v = Inr a"
| "put a (i # ind) v = (if i < length a then put (a[i := v]) ind v else Inl IndexError)"

fun fill_rows ::
  "real list list \<Rightarrow> real list \<Rightarrow> real \<Rightarrow> nat \<Rightarrow> nat list \<Rightarrow> bool list
     \<Rightarrow> py_error + bool list" where
  "fill_rows Tabledistance ReferenceTable ang_tol nb_of_spots [] mytab = Inr mytab"
| "fill_rows Tabledistance ReferenceTable ang_tol nb_of_spots (elem # rest) mytab =
     (if elem < length Tabledistance then
        (case put mytab
                (map (\<lambda>j. j + elem * nb_of_spots)
                   (snd (find_closest ReferenceTable (Tabledistance ! elem) ang_tol)))
                True of
           Inl e \<Rightarrow> Inl e
         | Inr mytab' \<Rightarrow>
             fill_rows Tabledistance ReferenceTable ang_tol nb_of_spots rest mytab')
      else Inl IndexError)"

definition reshape :: "'a list \<Rightarrow> nat \<Rightarrow> nat \<Rightarrow> 'a list list" where
  "reshape a r c = map (\<lambda>i. take c (drop (i * c) a)) [0..<r]"

definition create_AdjencyMatrix ::
  "real list list \<Rightarrow> real list \<Rightarrow> real \<Rightarrow> nat \<Rightarrow> py_error + bool list list" where
  "create_AdjencyMatrix Tabledistance ReferenceTable ang_tol nb_of_spots =
     (let mytab = replicate (nb_of_spots * nb_of_spots) False in
      case fill_rows Tabledistance ReferenceTable ang_tol nb_of_spots [0..<nb_of_spots] mytab of
        Inl e \<Rightarrow> Inl e
      | Inr mytab' \<Rightarrow> Inr (reshape mytab' nb_of_spots nb_of_spots))"

text \<open>
  Modelled from the spec: the clique of the data model (section 3), "a set of node
  indices that are pairwise connected under Graph". The enumeration of cliques is done
  by the networkx library and is not modelled.
\<close>

definition is_clique :: "bool list list \<Rightarrow> nat list \<Rightarrow> bool" where
  "is_clique AdjacencyMatrix c =
     (\<forall>i \<in> set c. \<forall>j \<in> set c. i \<noteq> j \<longrightarrow>
        i < length AdjacencyMatrix \<and> j < length (AdjacencyMatrix ! i) \<and> AdjacencyMatrix ! i ! j)"

subsection \<open>graingraph.py: \<^verbatim>\<open>bestclique_oneNode\<close>\<close>

text \<open>
  \<^verbatim>\<open>
  def bestclique_oneNode(CliquesList, displaybest=0):
      lon_C = np.array(list(map(len, CliquesList)))
      sortedcliques = np.argsort(lon_C)[::-1]
      bestclique = np.sort(CliquesList[np.argmax(lon_C)])
      ...                      # printing only
      return bestclique
  \<close>
  A clique is a list of node indices. \<open>displaybest\<close> only selects what is printed.
\<close>

definition bestclique_oneNode :: "nat list list \<Rightarrow> py_error + nat list" where
  "bestclique_oneNode CliquesList =
     (let lon_C = map length CliquesList in
      if lon_C = [] then Inl ValueError
      else Inr (sort (CliquesList ! argmax lon_C)))"

subsection \<open>graingraph.py: \<^verbatim>\<open>TableDistance_exp\<close>\<close>

text \<open>
  \<^verbatim>\<open>
  def TableDistance_exp(filename, nb_of_spots, col_Int=4):
      mydata = createrawdata(filename, col_Int=col_Int)
      data_theta, data_chi, data_I = mydata
      nbp = len(data_theta)
      if nb_of_spots > 0:
          upto = min(nb_of_spots, nbp)
          sorted_int_index = np.argsort(data_I)[::-1][:upto]
      elif nb_of_spots == -1:
          sorted_int_index = np.argsort(data_I)[::-1]
          upto = nbp
      listofselectedpts = np.arange(len(sorted_int_index))
      Theta = data_theta[sorted_int_index]
      Chi = data_chi[sorted_int_index]
      Intens = data_I[sorted_int_index]
      sorted_data = np.transpose(np.array([Theta, Chi, Intens]))
      angulardisttable = INDEX.calculdist_from_thetachi(sorted_data[:, 0:2], sorted_data[:, 0:2])
      return angulardisttable, upto
  \<close>
  Reading the file is input: the model takes \<open>mydata\<close>, the three columns that
  \<^verbatim>\<open>createrawdata\<close> returns, as a list of spots. The three columns are slices of
  one table and so have one length. \<^verbatim>\<open>INDEX.calculdist_from_thetachi\<close> is not part of
  the sources at hand and is the parameter \<open>calculdist\<close>.
\<close>

record spot =
  theta :: real
  chi :: real
  intensity :: real

type_synonym thetachi = "real \<times> real"

definition thetachi_of :: "spot \<Rightarrow> thetachi" where
  "thetachi_of s = (theta s, chi s)"

definition sorted_data_0_2 :: "spot list \<Rightarrow> nat list \<Rightarrow> thetachi list" where
  "sorted_data_0_2 mydata sorted_int_index =
     map (\<lambda>i. (theta (mydata ! i), chi (mydata ! i))) sorted_int_index"

definition TableDistance_exp ::
  "(thetachi list \<Rightarrow> thetachi list \<Rightarrow> real list list) \<Rightarrow> spot list \<Rightarrow> int
     \<Rightarrow> py_error + (real list list \<times> int)" where
  "TableDistance_exp calculdist mydata nb_of_spots =
     (let data_I = map intensity mydata;
          nbp = int (length mydata)
      in if nb_of_spots > 0 then
           (let upto = min nb_of_spots nbp;
                sorted_int_index = take (nat upto) (rev (argsort data_I));
                pts = sorted_data_0_2 mydata sorted_int_index
            in Inr (calculdist pts pts, upto))
         else if nb_of_spots = - 1 then
           (let sorted_int_index = rev (argsort data_I);
                upto = nbp;
                pts = sorted_data_0_2 mydata sorted_int_index
            in Inr (calculdist pts pts, upto))
         else Inl UnboundLocalError)"

subsection \<open>generaltools.py: angles between Miller-index vectors\<close>

text \<open>
  The vectors are rows of an integer numpy array: their components are \<open>int64\<close>
  values, modelled by the integers they denote.
\<close>

type_synonym hkl = "int \<times> int \<times> int"

definition dot :: "hkl \<Rightarrow> hkl \<Rightarrow> int" where
  "dot a b = (case a of (a1, a2, a3) \<Rightarrow> case b of (b1, b2, b3) \<Rightarrow> a1 * b1 + a2 * b2 + a3 * b3)"

text \<open>
  Modelled from the spec: \<^verbatim>\<open>GT.AngleBetweenVectors\<close> of \<^verbatim>\<open>generaltools.py\<close>, which is not
  among the sources at hand, under the identity metric. The spec (section 4.1): the angle
  between \<open>a\<close> and \<open>b\<close> is \<open>arccos ((a \<cdot> b) / sqrt ((a \<cdot> a) (b \<cdot> b)))\<close> in degrees, the
  argument clipped to \<open>[-1, 1]\<close>. Division by zero yields \<open>0\<close> in HOL, so a zero
  vector is at \<open>90\<close> degrees here, where numpy has \<open>nan\<close>: neither rounds to \<open>0\<close>.
\<close>

definition AngleBetweenVectors_deg :: "hkl \<Rightarrow> hkl \<Rightarrow> real" where
  "AngleBetweenVectors_deg a b =
     arccos (max (- 1) (min 1 (real_of_int (dot a b)
                                / sqrt (real_of_int (dot a a) * real_of_int (dot b b)))))
       * 180 / pi"

text \<open>
  \<^verbatim>\<open>np.round(x, decimals)\<close> scales by \<open>10 ^ decimals\<close>, rounds to the nearest integer,
  a tie to the even one, and scales back.
\<close>

definition round_half_even :: "real \<Rightarrow> int" where
  "round_half_even y =
     (let f = \<lfloor>y\<rfloor>; r = y - real_of_int f
      in if r < 1 / 2 then f
         else if 1 / 2 < r then f + 1
         else if even f then f else f + 1)"

definition np_round :: "real \<Rightarrow> nat \<Rightarrow> real" where
  "np_round x decimals = real_of_int (round_half_even (x * 10 ^ decimals)) / 10 ^ decimals"

text \<open>
  The test that \<^verbatim>\<open>FilterHarmonics_2\<close> makes on a pair of vectors (lines 208 and 215):
  the angle, rounded to 9 decimals, equals \<open>0\<close>.
\<close>

definition angle_is_0 :: "hkl \<Rightarrow> hkl \<Rightarrow> bool" where
  "angle_is_0 a b = (np_round (AngleBetweenVectors_deg a b) 9 = 0)"

text \<open>
  Two notions of geometry, to state the properties with: vectors that are parallel with
  the same sense, and vectors that are antiparallel. They are the vectors at angle
  exactly \<open>0\<close> and exactly \<open>180\<close> (\<open>AngleBetweenVectors_deg_0\<close> and
  \<open>AngleBetweenVectors_deg_180\<close> below).
\<close>

definition same_direction :: "hkl \<Rightarrow> hkl \<Rightarrow> bool" where
  "same_direction a b = (0 < dot a b \<and> dot a b * dot a b = dot a a * dot b b)"

definition opposite_direction :: "hkl \<Rightarrow> hkl \<Rightarrow> bool" where
  "opposite_direction a b = (dot a b < 0 \<and> dot a b * dot a b = dot a a * dot b b)"

subsection \<open>generaltools.py: index helpers and \<^verbatim>\<open>getSets\<close>\<close>

text \<open>
  Modelled from the spec: \<^verbatim>\<open>GT.indices_in_flatTriuMatrix\<close> and
  \<^verbatim>\<open>GT.indices_in_TriuMatrix\<close>, which are not among the sources at hand. The spec
  (section 4.4, step 2) builds the relation between \<open>i\<close> and \<open>j\<close> "excluding i=j" from the
  symmetric distance matrix: the first helper lists the positions, in the flattened
  \<open>n \<times> n\<close> matrix, of the entries above the diagonal; the second turns such positions
  back into pairs \<open>(row, column)\<close>.
\<close>

definition indices_in_flatTriuMatrix :: "nat \<Rightarrow> nat list" where
  "indices_in_flatTriuMatrix n = concat (map (\<lambda>i. map (\<lambda>j. i * n + j) [Suc i..<n]) [0..<n])"

definition indices_in_TriuMatrix :: "nat list \<Rightarrow> nat \<Rightarrow> (nat \<times> nat) list" where
  "indices_in_TriuMatrix ar_indices n = map (\<lambda>k. (k div n, k mod n)) ar_indices"

text \<open>
  Modelled from the spec: \<^verbatim>\<open>GT.getSets\<close>, which is not among the sources at hand. The
  spec (section 4.4, step 2): the relation "is treated as an equivalence (transitively
  closed) -- compute connected components, not pairwise cliques"; step 3 breaks ties
  "by lowest original index". \<open>getSets\<close> takes the pairs one by one: a pair joins the
  sets that hold one of its two indices into one set, listed in ascending order.
\<close>

definition merge_pair :: "nat \<times> nat \<Rightarrow> nat list list \<Rightarrow> nat list list" where
  "merge_pair p sets =
     (let touched = filter (\<lambda>s. fst p \<in> set s \<or> snd p \<in> set s) sets;
          others = filter (\<lambda>s. \<not> (fst p \<in> set s \<or> snd p \<in> set s)) sets
      in sort (remdups (fst p # snd p # concat touched)) # others)"

primrec getSets :: "(nat \<times> nat) list \<Rightarrow> nat list list" where
  "getSets [] = []"
| "getSets (p # pairs) = merge_pair p (getSets pairs)"

text \<open>
  The graph of a list of pairs, to state what \<open>getSets\<close> computes: its nodes, and the
  pairs of nodes joined by a path.
\<close>

definition nodes :: "(nat \<times> nat) list \<Rightarrow> nat set" where
  "nodes pairs = fst ` set pairs \<union> snd ` set pairs"

definition connected :: "(nat \<times> nat) list \<Rightarrow> (nat \<times> nat) set" where
  "connected pairs = (set pairs \<union> (set pairs)\<inverse>)\<^sup>*"

subsection \<open>CrystalParameters.py: \<^verbatim>\<open>FilterHarmonics_2\<close>\<close>

text \<open>
  \<^verbatim>\<open>
  def FilterHarmonics_2(hkl, return_indices_toremove=0):
      if not isinstance(hkl, (np.ndarray, list)):
          raise ValueError("hkl is not an array!!")
      if isinstance(hkl, list):
          hkl = np.array(hkl)
      if np.array(hkl).shape[0] == 1:
          return hkl
      nb_hkl = len(hkl)
      angles = np.round(AngleBetweenNormals(hkl, hkl, np.eye(3)), decimals=9)
      ra = np.ravel(angles)
      ind_in_flat_a = GT.indices_in_flatTriuMatrix(nb_hkl)
      angle_pairs = np.take(ra, ind_in_flat_a)
      pos_zeros = np.where(angle_pairs == 0)[0]
      if len(pos_zeros) > 0:
          hkls_pairs_index = GT.indices_in_TriuMatrix(ind_in_flat_a[pos_zeros], nb_hkl)
          cliques_of_harmonics = GT.getSets(hkls_pairs_index)
          allelem_in_cliques = []
          for cli in cliques_of_harmonics:
              allelem_in_cliques += cli
          initial_set = set(allelem_in_cliques)
          tokeep = []
          for clique in cliques_of_harmonics:
              abshkl = np.abs(np.take(hkl, clique, axis=0))
              fond_index = np.argmin(np.sum(abshkl, axis=1))
              tokeep.append(clique[fond_index])
          toremove = list(initial_set - set(tokeep))
          filtered_hkl = np.delete(hkl, toremove, axis=0)
          return filtered_hkl
      else:
          return hkl
  \<close>
  The model is the call with the default \<^verbatim>\<open>return_indices_toremove=0\<close>. The input is a
  list of integer triples, so the type test passes. The parameter \<open>angle0\<close> stands for
  the test of one entry of \<open>angles\<close>: \<open>angle0 a b\<close> says that the rounded angle between
  the vectors \<open>a\<close> and \<open>b\<close> equals \<open>0\<close>; the program's test is \<open>angle_is_0\<close>. The
  entries of the boolean matrix \<open>angles\<close> below are these tests. The spec takes at
  least one vector; for the empty list the model finds no pair and returns the list.

  \<open>toremove\<close> is a Python list made from a set: the model lists it in ascending order,
  and \<^verbatim>\<open>np.delete\<close> reads it as a set of row indices.
\<close>

text \<open>
  \<^verbatim>\<open>np.abs\<close> and \<^verbatim>\<open>np.sum\<close> on an \<open>int64\<close> array compute modulo \<open>2 ^ 64\<close>:
  \<open>int64 x\<close> is the value that an \<open>int64\<close> holds for the integer \<open>x\<close>, and
  \<open>sum_abs\<close> is one entry of \<^verbatim>\<open>np.sum(abshkl, axis=1)\<close>.
\<close>

definition int64 :: "int \<Rightarrow> int" where
  "int64 x = (x + 2 ^ 63) mod 2 ^ 64 - 2 ^ 63"

definition sum_abs :: "hkl \<Rightarrow> int" where
  "sum_abs v = (case v of (h, k, l) \<Rightarrow> int64 (int64 \<bar>h\<bar> + int64 \<bar>k\<bar> + int64 \<bar>l\<bar>))"

definition hkls_pairs_index :: "(hkl \<Rightarrow> hkl \<Rightarrow> bool) \<Rightarrow> hkl list \<Rightarrow> (nat \<times> nat) list" where
  "hkls_pairs_index angle0 hkl =
     (let nb_hkl = length hkl;
          angles = map (\<lambda>a. map (\<lambda>b. angle0 a b) hkl) hkl;
          ra = concat angles;
          ind_in_flat_a = indices_in_flatTriuMatrix nb_hkl;
          angle_pairs = map (\<lambda>k. ra ! k) ind_in_flat_a;
          pos_zeros = filter (\<lambda>p. angle_pairs ! p) [0..<length angle_pairs]
      in indices_in_TriuMatrix (map (\<lambda>p. ind_in_flat_a ! p) pos_zeros) nb_hkl)"

definition cliques_of_harmonics :: "(hkl \<Rightarrow> hkl \<Rightarrow> bool) \<Rightarrow> hkl list \<Rightarrow> nat list list" where
  "cliques_of_harmonics angle0 hkl = getSets (hkls_pairs_index angle0 hkl)"

definition clique_representative :: "hkl list \<Rightarrow> nat list \<Rightarrow> nat" where
  "clique_representative hkl clique =
     clique ! argmin (map (\<lambda>i. sum_abs (hkl ! i)) clique)"

definition tokeep :: "(hkl \<Rightarrow> hkl \<Rightarrow> bool) \<Rightarrow> hkl list \<Rightarrow> nat list" where
  "tokeep angle0 hkl = map (clique_representative hkl) (cliques_of_harmonics angle0 hkl)"

definition toremove :: "(hkl \<Rightarrow> hkl \<Rightarrow> bool) \<Rightarrow> hkl list \<Rightarrow> nat list" where
  "toremove angle0 hkl =
     (let allelem_in_cliques = concat (cliques_of_harmonics angle0 hkl)
      in filter (\<lambda>i. i \<notin> set (tokeep angle0 hkl)) (sort (remdups allelem_in_cliques)))"

definition np_delete :: "'a list \<Rightarrow> nat list \<Rightarrow> 'a list" where
  "np_delete arr obj = map (\<lambda>i. arr ! i) (filter (\<lambda>i. i \<notin> set obj) [0..<length arr])"

definition FilterHarmonics_2 :: "(hkl \<Rightarrow> hkl \<Rightarrow> bool) \<Rightarrow> hkl list \<Rightarrow> hkl list" where
  "FilterHarmonics_2 angle0 hkl =
     (if length hkl = 1 then hkl
      else if hkls_pairs_index angle0 hkl \<noteq> [] then np_delete hkl (toremove angle0 hkl)
      else hkl)"

text \<open>
  The relation of step 2 of the spec on the indices of \<open>hkl\<close>, read from the entries
  above the diagonal.
\<close>

definition zero_angle_relation :: "(hkl \<Rightarrow> hkl \<Rightarrow> bool) \<Rightarrow> hkl list \<Rightarrow> (nat \<times> nat) set" where
  "zero_angle_relation angle0 hkl = {(i, j). i < j \<and> j < length hkl \<and> angle0 (hkl ! i) (hkl ! j)}"

section \<open>Properties\<close>

subsection \<open>Index of the extreme value\<close>

lemma argmax_less: "xs \<noteq> [] \<Longrightarrow> argmax xs < length xs"
  by (induction xs rule: argmax.induct) (auto simp: Let_def)

lemma argmax_greatest: "i < length xs \<Longrightarrow> xs ! i \<le> xs ! argmax xs"
proof (induction xs arbitrary: i rule: argmax.induct)
  case 1
  then show ?case by simp
next
  case (2 x)
  then show ?case by simp
next
  case (3 x y ys)
  show ?case
  proof (cases i)
    case 0
    then show ?thesis by (auto simp: Let_def)
  next
    case (Suc j)
    with 3 have "(y # ys) ! j \<le> (y # ys) ! argmax (y # ys)" by simp
    with Suc show ?thesis by (auto simp: Let_def)
  qed
qed

lemma argmax_first: "i < argmax xs \<Longrightarrow> xs ! i < xs ! argmax xs"
proof (induction xs arbitrary: i rule: argmax.induct)
  case 1
  then show ?case by simp
next
  case (2 x)
  then show ?case by simp
next
  case (3 x y ys)
  show ?case
  proof (cases i)
    case 0
    with 3(2) show ?thesis by (auto simp: Let_def split: if_splits)
  next
    case (Suc j)
    with 3(2) have "j < argmax (y # ys)" by (auto simp: Let_def split: if_splits)
    with 3(1) have "(y # ys) ! j < (y # ys) ! argmax (y # ys)" by simp
    with Suc 3(2) show ?thesis by (auto simp: Let_def split: if_splits)
  qed
qed

subsection \<open>Claim C3\<close>

text \<open>
  C3. For a non-empty list of cliques, \<open>bestclique_oneNode\<close> returns the clique at
  some index \<open>k\<close> of the list, sorted ascending: no clique of the list is longer than
  it, every clique before position \<open>k\<close> is strictly shorter (so on a tie the first of
  the longest cliques is returned), the result has the same nodes as that clique, and
  a node that is in every clique of the list is in the result.
\<close>

theorem bestclique_oneNode_largest_first:
  assumes "CliquesList \<noteq> []"
  shows "\<exists>k < length CliquesList.
           bestclique_oneNode CliquesList = Inr (sort (CliquesList ! k))
         \<and> (\<forall>c \<in> set CliquesList. length c \<le> length (sort (CliquesList ! k)))
         \<and> (\<forall>j < k. length (CliquesList ! j) < length (CliquesList ! k))
         \<and> sorted (sort (CliquesList ! k))
         \<and> mset (sort (CliquesList ! k)) = mset (CliquesList ! k)
         \<and> (\<forall>node. (\<forall>c \<in> set CliquesList. node \<in> set c)
               \<longrightarrow> node \<in> set (sort (CliquesList ! k)))"
proof -
  let ?lon = "map length CliquesList"
  let ?k = "argmax ?lon"
  from assms have ne: "?lon \<noteq> []" by simp
  then have k: "?k < length CliquesList" using argmax_less [of ?lon] by simp
  have res: "bestclique_oneNode CliquesList = Inr (sort (CliquesList ! ?k))"
    using assms by (simp add: bestclique_oneNode_def)
  have big: "\<forall>c \<in> set CliquesList. length c \<le> length (sort (CliquesList ! ?k))"
  proof
    fix c assume "c \<in> set CliquesList"
    then obtain i where i: "i < length CliquesList" "c = CliquesList ! i"
      by (auto simp: in_set_conv_nth)
    then have "?lon ! i \<le> ?lon ! ?k" using argmax_greatest [of i ?lon] by simp
    with i k show "length c \<le> length (sort (CliquesList ! ?k))" by simp
  qed
  have first: "\<forall>j < ?k. length (CliquesList ! j) < length (CliquesList ! ?k)"
  proof (intro allI impI)
    fix j assume j: "j < ?k"
    then have "?lon ! j < ?lon ! ?k" by (rule argmax_first)
    with j k show "length (CliquesList ! j) < length (CliquesList ! ?k)" by simp
  qed
  have node: "\<forall>node. (\<forall>c \<in> set CliquesList. node \<in> set c)
                \<longrightarrow> node \<in> set (sort (CliquesList ! ?k))"
    using k by auto
  from k res big first node show ?thesis by (intro exI [of _ ?k]) simp
qed

theorem bestclique_oneNode_largest_first_witness:
  "[[0, 2], [3, 0, 1], [0, 5, 4], [0::nat]] \<noteq> []
   \<and> bestclique_oneNode [[0, 2], [3, 0, 1], [0, 5, 4], [0]] = Inr [0, 1, 3]"
proof -
  have ne: "[[0, 2], [3, 0, 1], [0, 5, 4], [0::nat]] \<noteq> []" by simp
  have ev: "bestclique_oneNode [[0, 2], [3, 0, 1], [0, 5, 4], [0]] = Inr [0, 1, 3]"
    by (simp add: bestclique_oneNode_def)
  from bestclique_oneNode_largest_first [OF ne] ne ev show ?thesis by simp
qed

subsection \<open>Selecting the spots of an experiment\<close>

lemma mset_argsort: "mset (argsort xs) = mset [0..<length xs]"
  by (simp add: argsort_def)

lemma set_argsort: "set (argsort xs) = {0..<length xs}"
  by (simp add: argsort_def)

lemma length_argsort: "length (argsort xs) = length xs"
  by (simp add: argsort_def)

lemma sorted_argsort: "sorted (map (\<lambda>i. xs ! i) (argsort xs))"
  by (simp add: argsort_def)

lemma mset_permuted:
  assumes "mset idx = mset [0..<length xs]"
  shows "mset (map (\<lambda>i. xs ! i) idx) = mset xs"
proof -
  have "mset (map (\<lambda>i. xs ! i) idx) = image_mset (\<lambda>i. xs ! i) (mset idx)" by simp
  also have "\<dots> = image_mset (\<lambda>i. xs ! i) (mset [0..<length xs])" using assms by simp
  also have "\<dots> = mset (map (\<lambda>i. xs ! i) [0..<length xs])" by simp
  also have "\<dots> = mset xs" by (simp add: map_nth)
  finally show ?thesis .
qed

lemma sorted_data_0_2_sel:
  "sorted_data_0_2 mydata idx = map thetachi_of (map (\<lambda>i. mydata ! i) idx)"
  by (simp add: sorted_data_0_2_def thetachi_of_def)

lemma intensity_desc:
  "sorted (rev (map intensity (map (\<lambda>i. mydata ! i) (rev (argsort (map intensity mydata))))))"
proof -
  let ?I = "map intensity mydata"
  have "map intensity (map (\<lambda>i. mydata ! i) (argsort ?I)) = map (\<lambda>i. ?I ! i) (argsort ?I)"
    using set_argsort [of ?I] by (auto simp: map_eq_conv)
  then have "rev (map intensity (map (\<lambda>i. mydata ! i) (rev (argsort ?I))))
               = map (\<lambda>i. ?I ! i) (argsort ?I)"
    by (simp add: rev_map)
  then show ?thesis using sorted_argsort [of ?I] by simp
qed

subsection \<open>Claim C9\<close>

text \<open>
  C9. With \<open>nb_of_spots = - 1\<close> the call returns the distance table of a selection
  \<open>sel\<close> of the spots together with the count \<open>N\<close> of all spots, where \<open>sel\<close> holds
  every spot exactly once, in order of descending intensity. Whenever the distance
  routine returns a matrix with one row per first argument and one column per second
  argument, the table is \<open>N \<times> N\<close>.
\<close>

theorem TableDistance_exp_all_spots:
  "\<exists>sel. TableDistance_exp calculdist mydata (- 1)
            = Inr (calculdist (map thetachi_of sel) (map thetachi_of sel), int (length mydata))
       \<and> mset sel = mset mydata
       \<and> length sel = length mydata
       \<and> sorted (rev (map intensity sel))
       \<and> ((\<forall>A B. length (calculdist A B) = length A
                  \<and> (\<forall>row \<in> set (calculdist A B). length row = length B))
            \<longrightarrow> (\<exists>M. TableDistance_exp calculdist mydata (- 1) = Inr (M, int (length mydata))
                     \<and> length M = length mydata
                     \<and> (\<forall>row \<in> set M. length row = length mydata)))"
proof -
  let ?I = "map intensity mydata"
  let ?sel = "map (\<lambda>i. mydata ! i) (rev (argsort ?I))"
  let ?pts = "map thetachi_of ?sel"
  have res: "TableDistance_exp calculdist mydata (- 1)
               = Inr (calculdist ?pts ?pts, int (length mydata))"
    by (simp add: TableDistance_exp_def Let_def sorted_data_0_2_sel)
  have "mset (rev (argsort ?I)) = mset [0..<length mydata]"
    using mset_argsort [of ?I] by simp
  then have perm: "mset ?sel = mset mydata" by (rule mset_permuted)
  have len: "length ?sel = length mydata" by (simp add: length_argsort)
  have desc: "sorted (rev (map intensity ?sel))" by (rule intensity_desc)
  have shape: "(\<forall>A B. length (calculdist A B) = length A
                  \<and> (\<forall>row \<in> set (calculdist A B). length row = length B))
            \<longrightarrow> (\<exists>M. TableDistance_exp calculdist mydata (- 1) = Inr (M, int (length mydata))
                     \<and> length M = length mydata
                     \<and> (\<forall>row \<in> set M. length row = length mydata))"
  proof
    assume sh: "\<forall>A B. length (calculdist A B) = length A
                  \<and> (\<forall>row \<in> set (calculdist A B). length row = length B)"
    then have "length (calculdist ?pts ?pts) = length mydata"
      and "\<forall>row \<in> set (calculdist ?pts ?pts). length row = length mydata"
      using len by simp_all
    with res show "\<exists>M. TableDistance_exp calculdist mydata (- 1) = Inr (M, int (length mydata))
                     \<and> length M = length mydata
                     \<and> (\<forall>row \<in> set M. length row = length mydata)"
      by blast
  qed
  from res perm len desc shape show ?thesis by blast
qed

theorem TableDistance_exp_all_spots_witness:
  "(\<forall>A B. length (map (\<lambda>a. map (\<lambda>b. fst a - fst b) B) A) = length A)
   \<and> TableDistance_exp (\<lambda>A B. map (\<lambda>a. map (\<lambda>b. fst a - fst b) B) A)
        [\<lparr>theta = 1, chi = 2, intensity = 5\<rparr>, \<lparr>theta = 3, chi = 4, intensity = 9\<rparr>,
         \<lparr>theta = 6, chi = 1, intensity = 7\<rparr>] (- 1)
      = Inr ([[0, - 3, 2], [3, 0, 5], [- 2, - 5, 0]], 3)"
proof -
  let ?calc = "\<lambda>A B :: thetachi list. map (\<lambda>a. map (\<lambda>b. fst a - fst b) B) A"
  let ?data = "[\<lparr>theta = 1, chi = 2, intensity = 5\<rparr>, \<lparr>theta = 3, chi = 4, intensity = 9\<rparr>,
                \<lparr>theta = 6, chi = 1, intensity = 7\<rparr>]"
  have shape: "\<forall>A B. length (?calc A B) = length A
                 \<and> (\<forall>row \<in> set (?calc A B). length row = length B)"
    by auto
  have ev: "TableDistance_exp ?calc ?data (- 1)
              = Inr ([[0, - 3, 2], [3, 0, 5], [- 2, - 5, 0]], 3)"
    by (simp add: TableDistance_exp_def sorted_data_0_2_def argsort_def upt_rec)
  from TableDistance_exp_all_spots [of ?calc ?data] shape ev show ?thesis by simp
qed

subsection \<open>Claim C10\<close>

text \<open>
  C10. The call returns a distance table exactly when \<open>nb_of_spots\<close> is positive or
  equal to \<open>- 1\<close>. For \<open>0\<close> and for every negative value other than \<open>- 1\<close> (such as
  \<open>- 2\<close>) neither branch binds \<open>sorted_int_index\<close>, and the first use of the name
  raises \<^verbatim>\<open>UnboundLocalError\<close>.
\<close>

theorem TableDistance_exp_defined_iff:
  "(\<exists>r. TableDistance_exp calculdist mydata nb_of_spots = Inr r)
      = (0 < nb_of_spots \<or> nb_of_spots = - 1)
   \<and> (TableDistance_exp calculdist mydata nb_of_spots = Inl UnboundLocalError)
      = (nb_of_spots \<le> 0 \<and> nb_of_spots \<noteq> - 1)
   \<and> TableDistance_exp calculdist mydata 0 = Inl UnboundLocalError
   \<and> TableDistance_exp calculdist mydata (- 2) = Inl UnboundLocalError"
  by (auto simp: TableDistance_exp_def Let_def)

subsection \<open>The nearest table entry\<close>

lemma searchsorted_from_correct:
  assumes "sorted a" "lo \<le> hi" "hi \<le> length a"
    "\<forall>i < lo. a ! i < v" "\<forall>i. hi \<le> i \<and> i < length a \<longrightarrow> v \<le> a ! i"
  shows "lo \<le> searchsorted_from a v lo hi \<and> searchsorted_from a v lo hi \<le> hi
       \<and> (\<forall>i < searchsorted_from a v lo hi. a ! i < v)
       \<and> (\<forall>i. searchsorted_from a v lo hi \<le> i \<and> i < length a \<longrightarrow> v \<le> a ! i)"
  using assms
proof (induction a v lo hi rule: searchsorted_from.induct)
  case (1 a v lo hi)
  show ?case
  proof (cases "lo < hi")
    case False
    have eq: "searchsorted_from a v lo hi = lo"
      using False by (simp add: searchsorted_from.simps [of a v lo hi])
    from False 1(4) have "lo = hi" by simp
    with eq 1(6,7) show ?thesis by simp
  next
    case True
    define mid where "mid = (lo + hi) div 2"
    have mid: "lo \<le> mid" "mid < hi" using True by (simp_all add: mid_def)
    show ?thesis
    proof (cases "a ! mid < v")
      case lt: True
      have below: "\<forall>i < Suc mid. a ! i < v"
      proof (intro allI impI)
        fix i assume "i < Suc mid"
        then have "i \<le> mid" by simp
        moreover have "mid < length a" using mid 1(5) by simp
        ultimately have "a ! i \<le> a ! mid" using 1(3) by (simp add: sorted_iff_nth_mono)
        with lt show "a ! i < v" by simp
      qed
      have eq: "searchsorted_from a v lo hi = searchsorted_from a v (Suc mid) hi"
        using True lt by (simp add: searchsorted_from.simps [of a v lo hi] mid_def Let_def)
      have "Suc mid \<le> searchsorted_from a v (Suc mid) hi \<and> searchsorted_from a v (Suc mid) hi \<le> hi
       \<and> (\<forall>i < searchsorted_from a v (Suc mid) hi. a ! i < v)
       \<and> (\<forall>i. searchsorted_from a v (Suc mid) hi \<le> i \<and> i < length a \<longrightarrow> v \<le> a ! i)"
        using 1(1) [OF True mid_def lt 1(3) _ 1(5) below 1(7)] mid by simp
      with eq mid show ?thesis by simp
    next
      case ge: False
      have above: "\<forall>i. mid \<le> i \<and> i < length a \<longrightarrow> v \<le> a ! i"
      proof (intro allI impI)
        fix i assume "mid \<le> i \<and> i < length a"
        then have "a ! mid \<le> a ! i" using 1(3) by (simp add: sorted_iff_nth_mono)
        with ge show "v \<le> a ! i" by simp
      qed
      have eq: "searchsorted_from a v lo hi = searchsorted_from a v lo mid"
        using True ge by (simp add: searchsorted_from.simps [of a v lo hi] mid_def Let_def)
      have "lo \<le> searchsorted_from a v lo mid \<and> searchsorted_from a v lo mid \<le> mid
       \<and> (\<forall>i < searchsorted_from a v lo mid. a ! i < v)
       \<and> (\<forall>i. searchsorted_from a v lo mid \<le> i \<and> i < length a \<longrightarrow> v \<le> a ! i)"
        using 1(2) [OF True mid_def ge 1(3) mid(1) _ 1(6) above] mid 1(5) by simp
      with eq mid show ?thesis by simp
    qed
  qed
qed

lemma searchsorted_correct:
  assumes "sorted a"
  shows "searchsorted a v \<le> length a
       \<and> (\<forall>i < searchsorted a v. a ! i < v)
       \<and> (\<forall>i. searchsorted a v \<le> i \<and> i < length a \<longrightarrow> v \<le> a ! i)"
  using searchsorted_from_correct [of a 0 "length a" v] assms
  by (simp add: searchsorted_def)

lemma nearest_index_less:
  assumes "sorted R" "R \<noteq> []"
  shows "nearest_index R d < length R"
  using searchsorted_correct [OF assms(1), of d] assms(2)
  by (auto simp: nearest_index_def Let_def)

lemma nearest_index_nearest:
  assumes "sorted R" "i < length R"
  shows "\<bar>R ! nearest_index R d - d\<bar> \<le> \<bar>R ! i - d\<bar>"
proof -
  define k where "k = searchsorted R d"
  have k: "k \<le> length R" "\<forall>j < k. R ! j < d" "\<forall>j. k \<le> j \<and> j < length R \<longrightarrow> d \<le> R ! j"
    using searchsorted_correct [OF assms(1), of d] by (simp_all add: k_def)
  have mono: "\<And>p q. p \<le> q \<Longrightarrow> q < length R \<Longrightarrow> R ! p \<le> R ! q"
    using assms(1) by (simp add: sorted_iff_nth_mono)
  consider (top) "length R \<le> k" | (bot) "k < length R" "k = 0"
    | (mid) "k < length R" "0 < k"
    by linarith
  then show ?thesis
  proof cases
    case top
    then have n: "nearest_index R d = length R - 1" by (simp add: nearest_index_def k_def)
    have "R ! i \<le> R ! (length R - 1)" using assms(2) by (intro mono) simp_all
    moreover have "R ! (length R - 1) < d" using k(2) top assms(2) by simp
    ultimately show ?thesis using n by simp
  next
    case bot
    then have n: "nearest_index R d = 0" by (simp add: nearest_index_def k_def)
    have "R ! 0 \<le> R ! i" using assms(2) by (intro mono) simp_all
    moreover have "d \<le> R ! 0" using k(3) bot by simp
    ultimately show ?thesis using n by simp
  next
    case mid
    have lo: "R ! (k - 1) < d" using k(2) mid by simp
    have hi: "d \<le> R ! k" using k(3) mid by simp
    have n: "nearest_index R d = (if d - R ! (k - 1) \<le> R ! k - d then k - 1 else k)"
      using mid by (simp add: nearest_index_def k_def Let_def)
    show ?thesis
    proof (cases "i < k")
      case True
      then have "R ! i \<le> R ! (k - 1)" using mid by (intro mono) simp_all
      with lo hi n show ?thesis by (simp split: if_splits)
    next
      case False
      then have "R ! k \<le> R ! i" using assms(2) by (intro mono) simp_all
      with lo hi n show ?thesis by (simp split: if_splits)
    qed
  qed
qed

lemma within_tol_iff:
  assumes "sorted R"
  shows "within_tol R d tol
           = (\<exists>r \<in> set R. (\<forall>r' \<in> set R. \<bar>r - d\<bar> \<le> \<bar>r' - d\<bar>) \<and> \<bar>r - d\<bar> \<le> tol)"
proof
  assume w: "within_tol R d tol"
  then have ne: "R \<noteq> []" and le: "\<bar>R ! nearest_index R d - d\<bar> \<le> tol"
    by (simp_all add: within_tol_def)
  have "R ! nearest_index R d \<in> set R"
    using nearest_index_less [OF assms ne] by simp
  moreover have "\<forall>r' \<in> set R. \<bar>R ! nearest_index R d - d\<bar> \<le> \<bar>r' - d\<bar>"
    using nearest_index_nearest [OF assms] by (auto simp: in_set_conv_nth)
  ultimately show "\<exists>r \<in> set R. (\<forall>r' \<in> set R. \<bar>r - d\<bar> \<le> \<bar>r' - d\<bar>) \<and> \<bar>r - d\<bar> \<le> tol"
    using le by blast
next
  assume "\<exists>r \<in> set R. (\<forall>r' \<in> set R. \<bar>r - d\<bar> \<le> \<bar>r' - d\<bar>) \<and> \<bar>r - d\<bar> \<le> tol"
  then obtain r where r: "r \<in> set R" "\<bar>r - d\<bar> \<le> tol" by blast
  then obtain i where i: "i < length R" "r = R ! i" by (auto simp: in_set_conv_nth)
  have "\<bar>R ! nearest_index R d - d\<bar> \<le> \<bar>r - d\<bar>"
    using nearest_index_nearest [OF assms i(1)] i(2) by simp
  with r show "within_tol R d tol" by (auto simp: within_tol_def)
qed

subsection \<open>The cells of the adjacency matrix\<close>

lemma put_in_range:
  assumes "\<forall>i \<in> set ind. i < length a"
  shows "\<exists>a'. put a ind v = Inr a' \<and> length a' = length a
           \<and> (\<forall>p < length a. a' ! p = (if p \<in> set ind then v else a ! p))"
  using assms
proof (induction ind arbitrary: a)
  case Nil
  then show ?case by simp
next
  case (Cons i ind)
  then have i: "i < length a" and rest: "\<forall>j \<in> set ind. j < length (a[i := v])" by simp_all
  from Cons.IH [OF rest] obtain a' where a':
    "put (a[i := v]) ind v = Inr a'" "length a' = length a"
    "\<forall>p < length a. a' ! p = (if p \<in> set ind then v else (a[i := v]) ! p)"
    by auto
  have "\<forall>p < length a. a' ! p = (if p \<in> set (i # ind) then v else a ! p)"
    using a'(3) by (auto simp: nth_list_update)
  with a'(1,2) i show ?case by simp
qed

lemma accepted_indices:
  "set (snd (find_closest R row tol)) = {j. j < length row \<and> within_tol R (row ! j) tol}"
  by (auto simp: find_closest_def)

lemma fill_rows_square:
  assumes "\<forall>e \<in> set es. e < n \<and> e < length T \<and> length (T ! e) = n"
    and "length mytab = n * n"
  shows "\<exists>tab. fill_rows T R tol n es mytab = Inr tab \<and> length tab = n * n
           \<and> (\<forall>p < n * n. tab ! p
                 = (mytab ! p \<or> (\<exists>e \<in> set es. \<exists>j < n. p = j + e * n \<and> within_tol R (T ! e ! j) tol)))"
  using assms
proof (induction es arbitrary: mytab)
  case Nil
  then show ?case by simp
next
  case (Cons e es)
  let ?ind = "map (\<lambda>j. j + e * n) (snd (find_closest R (T ! e) tol))"
  from Cons.prems have e: "e < n" "e < length T" "length (T ! e) = n" by simp_all
  have set_ind: "set ?ind = {j + e * n | j. j < n \<and> within_tol R (T ! e ! j) tol}"
    using e(3) by (auto simp: accepted_indices)
  have in_range: "\<forall>i \<in> set ?ind. i < length mytab"
  proof
    fix i assume "i \<in> set ?ind"
    then obtain j where j: "i = j + e * n" "j < n" using set_ind by auto
    have "j + e * n < n + e * n" using j(2) by simp
    also have "\<dots> = Suc e * n" by simp
    also have "\<dots> \<le> n * n" using e(1) by (metis Suc_leI mult_le_mono1)
    finally show "i < length mytab" using j(1) Cons.prems(2) by simp
  qed
  from put_in_range [OF in_range, of True] obtain tab1 where tab1:
    "put mytab ?ind True = Inr tab1" "length tab1 = length mytab"
    "\<forall>p < length mytab. tab1 ! p = (if p \<in> set ?ind then True else mytab ! p)"
    by blast
  have rest: "\<forall>e' \<in> set es. e' < n \<and> e' < length T \<and> length (T ! e') = n"
    using Cons.prems(1) by simp
  have len1: "length tab1 = n * n" using tab1(2) Cons.prems(2) by simp
  from Cons.IH [OF rest len1] obtain tab where tab:
    "fill_rows T R tol n es tab1 = Inr tab" "length tab = n * n"
    "\<forall>p < n * n. tab ! p
        = (tab1 ! p \<or> (\<exists>e' \<in> set es. \<exists>j < n. p = j + e' * n \<and> within_tol R (T ! e' ! j) tol))"
    by blast
  have run: "fill_rows T R tol n (e # es) mytab = Inr tab"
    using e(2) tab1(1) tab(1) by simp
  have cells: "\<forall>p < n * n. tab ! p
     = (mytab ! p \<or> (\<exists>e' \<in> set (e # es). \<exists>j < n. p = j + e' * n \<and> within_tol R (T ! e' ! j) tol))"
  proof (intro allI impI)
    fix p assume p: "p < n * n"
    have "tab1 ! p = (mytab ! p \<or> (\<exists>j < n. p = j + e * n \<and> within_tol R (T ! e ! j) tol))"
      using tab1(3) p Cons.prems(2) set_ind by auto
    with tab(3) p show "tab ! p
     = (mytab ! p \<or> (\<exists>e' \<in> set (e # es). \<exists>j < n. p = j + e' * n \<and> within_tol R (T ! e' ! j) tol))"
      by auto
  qed
  from run tab(2) cells show ?case by blast
qed

lemma reshape_nth:
  assumes "length a = r * c" "i < r" "j < c"
  shows "length (reshape a r c) = r" "length (reshape a r c ! i) = c"
    "reshape a r c ! i ! j = a ! (i * c + j)"
proof -
  have "i * c + c = Suc i * c" by simp
  also have "\<dots> \<le> r * c" using assms(2) by (metis Suc_leI mult_le_mono1)
  finally have le: "i * c + c \<le> length a" using assms(1) by simp
  show "length (reshape a r c) = r" by (simp add: reshape_def)
  show "length (reshape a r c ! i) = c" using assms(2) le by (simp add: reshape_def)
  show "reshape a r c ! i ! j = a ! (i * c + j)" using assms(2,3) le by (simp add: reshape_def)
qed

lemma flat_index_unique:
  fixes n :: nat
  assumes "j < n" "j' < n" "i * n + j = j' + e * n"
  shows "e = i \<and> j' = j"
proof -
  have "(i * n + j) div n = i" "(i * n + j) mod n = j" using assms(1) by simp_all
  moreover have "(j' + e * n) div n = e" "(j' + e * n) mod n = j'" using assms(2) by simp_all
  ultimately show ?thesis using assms(3) by simp
qed

lemma create_AdjencyMatrix_cells:
  assumes "n \<le> length T" "\<forall>i < n. length (T ! i) = n"
  shows "\<exists>A. create_AdjencyMatrix T R tol n = Inr A \<and> length A = n
           \<and> (\<forall>i < n. length (A ! i) = n)
           \<and> (\<forall>i < n. \<forall>j < n. A ! i ! j = within_tol R (T ! i ! j) tol)"
proof -
  have rows: "\<forall>e \<in> set [0..<n]. e < n \<and> e < length T \<and> length (T ! e) = n"
    using assms by simp
  from fill_rows_square [OF rows, of "replicate (n * n) False" R tol]
  obtain tab where tab: "fill_rows T R tol n [0..<n] (replicate (n * n) False) = Inr tab"
    "length tab = n * n"
    "\<forall>p < n * n. tab ! p = (replicate (n * n) False ! p
        \<or> (\<exists>e \<in> set [0..<n]. \<exists>j < n. p = j + e * n \<and> within_tol R (T ! e ! j) tol))"
    by auto
  have res: "create_AdjencyMatrix T R tol n = Inr (reshape tab n n)"
    using tab(1) by (simp add: create_AdjencyMatrix_def)
  have cell: "reshape tab n n ! i ! j = within_tol R (T ! i ! j) tol" if ij: "i < n" "j < n" for i j
  proof -
    have "i * n + j < i * n + n" using ij(2) by simp
    also have "\<dots> = Suc i * n" by simp
    also have "\<dots> \<le> n * n" using ij(1) by (metis Suc_leI mult_le_mono1)
    finally have p: "i * n + j < n * n" .
    have "reshape tab n n ! i ! j = tab ! (i * n + j)"
      using reshape_nth(3) [OF tab(2) ij] .
    also have "\<dots> = (\<exists>e \<in> set [0..<n]. \<exists>j' < n. i * n + j = j' + e * n \<and> within_tol R (T ! e ! j') tol)"
      using tab(3) p by simp
    also have "\<dots> = within_tol R (T ! i ! j) tol"
    proof
      assume "\<exists>e \<in> set [0..<n]. \<exists>j' < n. i * n + j = j' + e * n \<and> within_tol R (T ! e ! j') tol"
      then obtain e j' where ej: "j' < n" "i * n + j = j' + e * n" "within_tol R (T ! e ! j') tol"
        by blast
      from flat_index_unique [OF ij(2) ej(1,2)] ej(3) show "within_tol R (T ! i ! j) tol" by simp
    next
      assume "within_tol R (T ! i ! j) tol"
      then show "\<exists>e \<in> set [0..<n]. \<exists>j' < n. i * n + j = j' + e * n \<and> within_tol R (T ! e ! j') tol"
        using ij by (intro bexI [of _ i] exI [of _ j]) simp_all
    qed
    finally show ?thesis .
  qed
  have "length (reshape tab n n) = n" by (simp add: reshape_def)
  moreover have "\<forall>i < n. length (reshape tab n n ! i) = n"
  proof (intro allI impI)
    fix i assume i: "i < n"
    then have "0 < n" by simp
    from reshape_nth(2) [OF tab(2) i this] show "length (reshape tab n n ! i) = n" .
  qed
  ultimately show ?thesis using res cell by simp
qed

lemma fill_rows_empty_table:
  assumes "\<forall>e \<in> set es. e < length T"
  shows "fill_rows T [] tol n es mytab = Inr mytab"
  using assms by (induction es) (simp_all add: find_closest_def within_tol_def)

lemma reshape_replicate:
  "reshape (replicate (n * n) v) n n = replicate n (replicate n v)"
proof -
  have "take n (drop (i * n) (replicate (n * n) v)) = replicate n v" if "i < n" for i
  proof -
    have "i * n + n = Suc i * n" by simp
    also have "\<dots> \<le> n * n" using that by (metis Suc_leI mult_le_mono1)
    finally have "n \<le> n * n - i * n" by simp
    then show ?thesis by (simp add: min_def)
  qed
  then have "map (\<lambda>i. take n (drop (i * n) (replicate (n * n) v))) [0..<n]
               = map (\<lambda>i. replicate n v) [0..<n]"
    by (intro map_cong) simp_all
  then show ?thesis by (simp add: reshape_def map_replicate_const)
qed

subsection \<open>Claim C1\<close>

text \<open>
  C1. For an \<open>N \<times> N\<close> distance matrix \<open>D\<close> and a sorted reference table \<open>R\<close>,
  \<open>create_AdjencyMatrix\<close> returns an \<open>N \<times> N\<close> matrix whose entry \<open>i, j\<close> is true
  exactly when an entry of \<open>R\<close> nearest to \<open>D[i][j]\<close> differs from \<open>D[i][j]\<close> by at
  most \<open>ang_tol\<close>. The condition reads no other cell of \<open>D\<close>. It holds for every
  tolerance and on the diagonal as well.
\<close>

theorem create_AdjencyMatrix_nearest_within_tol:
  assumes "length D = N" and "\<forall>row \<in> set D. length row = N" and "sorted R"
  shows "\<exists>A. create_AdjencyMatrix D R ang_tol N = Inr A \<and> length A = N
           \<and> (\<forall>i < N. length (A ! i) = N)
           \<and> (\<forall>i < N. \<forall>j < N. A ! i ! j
                 = (\<exists>r \<in> set R. (\<forall>r' \<in> set R. \<bar>r - D ! i ! j\<bar> \<le> \<bar>r' - D ! i ! j\<bar>)
                               \<and> \<bar>r - D ! i ! j\<bar> \<le> ang_tol))"
proof -
  have "N \<le> length D" "\<forall>i < N. length (D ! i) = N" using assms(1,2) by simp_all
  from create_AdjencyMatrix_cells [OF this, of R ang_tol] show ?thesis
    by (simp add: within_tol_iff [OF assms(3)])
qed

theorem create_AdjencyMatrix_nearest_within_tol_witness:
  "length [[0, 10.5, 25], [10.5, 0, 19.5], [25, 19.5, 0 :: real]] = 3
   \<and> map length [[0, 10.5, 25], [10.5, 0, 19.5], [25, 19.5, 0 :: real]] = [3, 3, 3]
   \<and> sorted [10, 20, 30 :: real]
   \<and> create_AdjencyMatrix [[0, 10.5, 25], [10.5, 0, 19.5], [25, 19.5, 0]] [10, 20, 30] 1 3
       = Inr [[False, True, False], [True, False, True], [False, True, False]]"
proof -
  let ?D = "[[0, 10.5, 25], [10.5, 0, 19.5], [25, 19.5, 0 :: real]]"
  have h1: "length ?D = 3" by simp
  have h2: "\<forall>row \<in> set ?D. length row = 3" by simp
  have h3: "sorted [10, 20, 30 :: real]" by simp
  have ev: "create_AdjencyMatrix ?D [10, 20, 30] 1 3
       = Inr [[False, True, False], [True, False, True], [False, True, False]]"
    by code_simp
  from create_AdjencyMatrix_nearest_within_tol [OF h1 h2 h3, of 1] h3 ev show ?thesis by simp
qed

subsection \<open>Claim C2\<close>

text \<open>
  C2. For an \<open>N \<times> N\<close> distance matrix, which is symmetric (data model, section 3),
  every reference table and every tolerance, the adjacency matrix is symmetric.
\<close>

theorem create_AdjencyMatrix_symmetric:
  assumes "length D = N" and "\<forall>row \<in> set D. length row = N"
    and "\<forall>i < N. \<forall>j < N. D ! i ! j = D ! j ! i"
  shows "\<exists>A. create_AdjencyMatrix D R ang_tol N = Inr A
           \<and> (\<forall>i < N. \<forall>j < N. A ! i ! j = A ! j ! i)"
proof -
  have "N \<le> length D" "\<forall>i < N. length (D ! i) = N" using assms(1,2) by simp_all
  from create_AdjencyMatrix_cells [OF this, of R ang_tol] obtain A where
    A: "create_AdjencyMatrix D R ang_tol N = Inr A"
       "\<forall>i < N. \<forall>j < N. A ! i ! j = within_tol R (D ! i ! j) ang_tol"
    by blast
  have "\<forall>i < N. \<forall>j < N. A ! i ! j = A ! j ! i"
    using A(2) assms(3) by simp
  with A(1) show ?thesis by blast
qed

theorem create_AdjencyMatrix_symmetric_witness:
  "length [[0, 29.5, 12], [29.5, 0, 20], [12, 20, 0 :: real]] = 3
   \<and> map length [[0, 29.5, 12], [29.5, 0, 20], [12, 20, 0 :: real]] = [3, 3, 3]
   \<and> transpose [[0, 29.5, 12], [29.5, 0, 20], [12, 20, 0 :: real]]
       = [[0, 29.5, 12], [29.5, 0, 20], [12, 20, 0]]
   \<and> create_AdjencyMatrix [[0, 29.5, 12], [29.5, 0, 20], [12, 20, 0]] [10, 20, 30] (1 / 2) 3
       = Inr [[False, True, False], [True, False, True], [False, True, False]]"
proof -
  let ?D = "[[0, 29.5, 12], [29.5, 0, 20], [12, 20, 0 :: real]]"
  have h1: "length ?D = 3" by simp
  have h2: "\<forall>row \<in> set ?D. length row = 3" by simp
  have h3: "\<forall>i < 3. \<forall>j < 3. ?D ! i ! j = ?D ! j ! i"
    by (simp add: numeral_3_eq_3 All_less_Suc)
  have tr: "transpose ?D = ?D" by code_simp
  have ev: "create_AdjencyMatrix ?D [10, 20, 30] (1 / 2) 3
       = Inr [[False, True, False], [True, False, True], [False, True, False]]"
    by code_simp
  from create_AdjencyMatrix_symmetric [OF h1 h2 h3, of "[10, 20, 30]" "1 / 2"] tr ev
  show ?thesis by simp
qed

subsection \<open>Claim C8\<close>

text \<open>
  C8. With an empty reference table and a distance table of at least \<open>N\<close> rows,
  \<open>create_AdjencyMatrix\<close> raises no error and returns the \<open>N \<times> N\<close> matrix whose
  entries are all false. The graph has no edge: every clique of nodes below \<open>N\<close> has
  at most one node.
\<close>

theorem create_AdjencyMatrix_empty_table:
  assumes "N \<le> length D"
  shows "create_AdjencyMatrix D [] ang_tol N = Inr (replicate N (replicate N False))
       \<and> (\<forall>c. is_clique (replicate N (replicate N False)) c \<and> set c \<subseteq> {0..<N}
             \<longrightarrow> card (set c) \<le> 1)"
proof -
  have "\<forall>e \<in> set [0..<N]. e < length D" using assms by simp
  then have "fill_rows D [] ang_tol N [0..<N] (replicate (N * N) False)
               = Inr (replicate (N * N) False)"
    by (rule fill_rows_empty_table)
  then have res: "create_AdjencyMatrix D [] ang_tol N = Inr (replicate N (replicate N False))"
    by (simp add: create_AdjencyMatrix_def reshape_replicate)
  have single: "card (set c) \<le> 1"
    if c: "is_clique (replicate N (replicate N False)) c" "set c \<subseteq> {0..<N}" for c
  proof -
    have "i = j" if "i \<in> set c" "j \<in> set c" for i j
    proof (rule ccontr)
      assume "i \<noteq> j"
      have "i < N" "j < N" using c(2) that by auto
      moreover have "replicate N (replicate N False) ! i ! j"
        using c(1) that \<open>i \<noteq> j\<close> unfolding is_clique_def by blast
      ultimately show False by simp
    qed
    then show ?thesis by (metis card_le_Suc0_iff_eq List.finite_set One_nat_def)
  qed
  from res single show ?thesis by blast
qed

theorem create_AdjencyMatrix_empty_table_witness:
  "(2::nat) \<le> length [[0, 10.5], [10.5, 0 :: real]]
   \<and> create_AdjencyMatrix [[0, 10.5], [10.5, 0]] [] 1 2 = Inr [[False, False], [False, False]]"
proof -
  have h: "(2::nat) \<le> length [[0, 10.5], [10.5, 0 :: real]]" by simp
  from create_AdjencyMatrix_empty_table [OF h, of 1] show ?thesis
    by (simp add: numeral_2_eq_2)
qed

subsection \<open>The sets of \<open>getSets\<close> are the connected components\<close>

lemma set_merge_pair_head:
  "set (hd (merge_pair p sets))
     = {fst p, snd p} \<union> \<Union> (set ` {s \<in> set sets. fst p \<in> set s \<or> snd p \<in> set s})"
  by (auto simp: merge_pair_def Let_def)

lemma merge_pair_Cons:
  "merge_pair p sets
     = hd (merge_pair p sets) # filter (\<lambda>s. \<not> (fst p \<in> set s \<or> snd p \<in> set s)) sets"
  by (simp add: merge_pair_def Let_def)

lemma getSets_wf: "g \<in> set (getSets pairs) \<Longrightarrow> g \<noteq> [] \<and> sorted g \<and> distinct g"
proof (induction pairs arbitrary: g)
  case Nil
  then show ?case by simp
next
  case (Cons p pairs)
  let ?new = "hd (merge_pair p (getSets pairs))"
  from Cons.prems have "g = ?new \<or> g \<in> set (getSets pairs)"
    by (subst (asm) getSets.simps, subst (asm) merge_pair_Cons) auto
  then show ?case
  proof
    assume g: "g = ?new"
    have "fst p \<in> set ?new" by (simp add: set_merge_pair_head)
    then have "?new \<noteq> []" by auto
    moreover have "sorted ?new" "distinct ?new" by (simp_all add: merge_pair_def Let_def)
    ultimately show ?thesis using g by simp
  next
    assume "g \<in> set (getSets pairs)"
    then show ?thesis by (rule Cons.IH)
  qed
qed

lemma getSets_union: "\<Union> (set ` set (getSets pairs)) = nodes pairs"
proof (induction pairs)
  case Nil
  then show ?case by (simp add: nodes_def)
next
  case (Cons p pairs)
  have "\<Union> (set ` set (merge_pair p (getSets pairs)))
          = {fst p, snd p} \<union> \<Union> (set ` set (getSets pairs))"
    by (subst merge_pair_Cons) (auto simp: set_merge_pair_head)
  with Cons show ?case by (auto simp: nodes_def)
qed

lemma closed_rtrancl:
  assumes "(x, y) \<in> r\<^sup>*" "x \<in> S" "\<And>u v. u \<in> S \<Longrightarrow> (u, v) \<in> r \<Longrightarrow> v \<in> S"
  shows "y \<in> S"
  using assms by (induction rule: rtrancl_induct) auto

lemma connected_mono: "(x, y) \<in> connected pairs \<Longrightarrow> (x, y) \<in> connected (p # pairs)"
  unfolding connected_def by (rule rtrancl_mono [THEN subsetD, rotated]) auto

lemma connected_sym: "(x, y) \<in> connected pairs \<Longrightarrow> (y, x) \<in> connected pairs"
proof -
  have "sym (set pairs \<union> (set pairs)\<inverse>)" by (auto simp: sym_def)
  then have "sym (connected pairs)" unfolding connected_def by (rule sym_rtrancl)
  then show "(x, y) \<in> connected pairs \<Longrightarrow> (y, x) \<in> connected pairs" by (auto dest: symD)
qed

lemma connected_trans:
  "(x, y) \<in> connected pairs \<Longrightarrow> (y, z) \<in> connected pairs \<Longrightarrow> (x, z) \<in> connected pairs"
  unfolding connected_def by (rule rtrancl_trans)

lemma connected_edge: "(a, b) \<in> set pairs \<Longrightarrow> (a, b) \<in> connected pairs"
  unfolding connected_def by auto

lemma getSets_class:
  "g \<in> set (getSets pairs) \<Longrightarrow> x \<in> set g \<Longrightarrow> set g = {y. (x, y) \<in> connected pairs}"
proof (induction pairs arbitrary: g x)
  case Nil
  then show ?case by simp
next
  case (Cons p pairs)
  obtain a b where p: "p = (a, b)" by (cases p)
  let ?G = "getSets pairs"
  let ?new = "hd (merge_pair p ?G)"
  have new_set: "set ?new = {a, b} \<union> \<Union> (set ` {s \<in> set ?G. a \<in> set s \<or> b \<in> set s})"
    using set_merge_pair_head [of p ?G] by (simp add: p)
  have IH: "\<And>h u. h \<in> set ?G \<Longrightarrow> u \<in> set h \<Longrightarrow> set h = {y. (u, y) \<in> connected pairs}"
    by (rule Cons.IH)
  have edge_ab: "(a, b) \<in> connected (p # pairs)" by (rule connected_edge) (simp add: p)
  have step_cases: "(u, v) \<in> set pairs \<union> (set pairs)\<inverse> \<or> (u = a \<and> v = b) \<or> (u = b \<and> v = a)"
    if "(u, v) \<in> set (p # pairs) \<union> (set (p # pairs))\<inverse>" for u v
    using that by (auto simp: p)
  have old_node: "\<exists>h \<in> set ?G. u \<in> set h" if "(u, v) \<in> set pairs \<union> (set pairs)\<inverse>" for u v
  proof -
    from that have "u \<in> nodes pairs" by (force simp: nodes_def)
    then show ?thesis using getSets_union [of pairs] by auto
  qed
  have old_step: "v \<in> set h" if "h \<in> set ?G" "u \<in> set h" "(u, v) \<in> set pairs \<union> (set pairs)\<inverse>"
    for h u v
  proof -
    have "(u, v) \<in> connected pairs" using that(3) unfolding connected_def by blast
    then show ?thesis using IH [OF that(1,2)] by simp
  qed
  \<comment> \<open>every member of the new group is connected to \<open>a\<close>\<close>
  have to_a: "(u, a) \<in> connected (p # pairs)" if "u \<in> set ?new" for u
  proof -
    from that new_set consider "u = a" | "u = b"
      | h where "h \<in> set ?G" "u \<in> set h" "a \<in> set h"
      | h where "h \<in> set ?G" "u \<in> set h" "b \<in> set h"
      by auto
    then show ?thesis
    proof cases
      case 1
      then show ?thesis by (simp add: connected_def)
    next
      case 2
      then show ?thesis using connected_sym [OF edge_ab] by simp
    next
      case 3
      then have "(u, a) \<in> connected pairs" using IH [of h u] by auto
      then show ?thesis by (rule connected_mono)
    next
      case 4
      then have "(u, b) \<in> connected pairs" using IH [of h u] by auto
      then have "(u, b) \<in> connected (p # pairs)" by (rule connected_mono)
      then show ?thesis using connected_sym [OF edge_ab] by (rule connected_trans)
    qed
  qed
  \<comment> \<open>the new group is closed under edges\<close>
  have new_closed: "v \<in> set ?new"
    if "u \<in> set ?new" "(u, v) \<in> set (p # pairs) \<union> (set (p # pairs))\<inverse>" for u v
  proof -
    from step_cases [OF that(2)] show ?thesis
    proof (elim disjE)
      assume old: "(u, v) \<in> set pairs \<union> (set pairs)\<inverse>"
      from old_node [OF old] obtain h where h: "h \<in> set ?G" "u \<in> set h" by blast
      have v: "v \<in> set h" using old_step [OF h old] .
      from that(1) new_set consider "u = a" | "u = b"
        | h' where "h' \<in> set ?G" "u \<in> set h'" "a \<in> set h' \<or> b \<in> set h'"
        by auto
      then show ?thesis
      proof cases
        case 1
        with h v show ?thesis using new_set by auto
      next
        case 2
        with h v show ?thesis using new_set by auto
      next
        case 3
        have "v \<in> set h'" using old_step [OF 3(1,2) old] .
        with 3 show ?thesis using new_set by auto
      qed
    qed (auto simp: new_set)
  qed
  from Cons.prems(1) have "g = ?new \<or> (g \<in> set ?G \<and> a \<notin> set g \<and> b \<notin> set g)"
    by (subst (asm) getSets.simps, subst (asm) merge_pair_Cons) (auto simp: p)
  then show ?case
  proof
    assume g: "g = ?new"
    show ?thesis
    proof (intro set_eqI iffI)
      fix y assume "y \<in> set g"
      then have "(y, a) \<in> connected (p # pairs)" using to_a g by simp
      moreover have "(x, a) \<in> connected (p # pairs)" using to_a Cons.prems(2) g by simp
      ultimately have "(x, y) \<in> connected (p # pairs)"
        using connected_sym connected_trans by blast
      then show "y \<in> {y. (x, y) \<in> connected (p # pairs)}" by simp
    next
      fix y assume "y \<in> {y. (x, y) \<in> connected (p # pairs)}"
      then have "(x, y) \<in> (set (p # pairs) \<union> (set (p # pairs))\<inverse>)\<^sup>*"
        by (simp add: connected_def)
      then have "y \<in> set ?new"
        using Cons.prems(2) g new_closed by (elim closed_rtrancl) auto
      then show "y \<in> set g" using g by simp
    qed
  next
    assume g: "g \<in> set ?G \<and> a \<notin> set g \<and> b \<notin> set g"
    have closed: "v \<in> set g"
      if "u \<in> set g" "(u, v) \<in> set (p # pairs) \<union> (set (p # pairs))\<inverse>" for u v
    proof -
      from step_cases [OF that(2)] that(1) g
      have "(u, v) \<in> set pairs \<union> (set pairs)\<inverse>" by auto
      then show ?thesis using old_step g that(1) by blast
    qed
    show ?thesis
    proof (intro set_eqI iffI)
      fix y assume "y \<in> set g"
      then have "(x, y) \<in> connected pairs" using IH [of g x] g Cons.prems(2) by auto
      then show "y \<in> {y. (x, y) \<in> connected (p # pairs)}"
        by (simp add: connected_mono)
    next
      fix y assume "y \<in> {y. (x, y) \<in> connected (p # pairs)}"
      then have "(x, y) \<in> (set (p # pairs) \<union> (set (p # pairs))\<inverse>)\<^sup>*"
        by (simp add: connected_def)
      then show "y \<in> set g"
        using Cons.prems(2) closed by (elim closed_rtrancl) auto
    qed
  qed
qed

subsection \<open>The pairs at angle zero\<close>

lemma argmin_less: "xs \<noteq> [] \<Longrightarrow> argmin xs < length xs"
  by (induction xs rule: argmin.induct) (auto simp: Let_def)

lemma argmin_least: "i < length xs \<Longrightarrow> xs ! argmin xs \<le> xs ! i"
proof (induction xs arbitrary: i rule: argmin.induct)
  case 1
  then show ?case by simp
next
  case (2 x)
  then show ?case by simp
next
  case (3 x y ys)
  show ?case
  proof (cases i)
    case 0
    then show ?thesis by (auto simp: Let_def)
  next
    case (Suc j)
    with 3 have "(y # ys) ! argmin (y # ys) \<le> (y # ys) ! j" by simp
    with Suc show ?thesis by (auto simp: Let_def)
  qed
qed

lemma argmin_first: "i < argmin xs \<Longrightarrow> xs ! argmin xs < xs ! i"
proof (induction xs arbitrary: i rule: argmin.induct)
  case 1
  then show ?case by simp
next
  case (2 x)
  then show ?case by simp
next
  case (3 x y ys)
  show ?case
  proof (cases i)
    case 0
    with 3(2) show ?thesis by (auto simp: Let_def split: if_splits)
  next
    case (Suc j)
    with 3(2) have "j < argmin (y # ys)" by (auto simp: Let_def split: if_splits)
    with 3(1) have "(y # ys) ! argmin (y # ys) < (y # ys) ! j" by simp
    with Suc 3(2) show ?thesis by (auto simp: Let_def split: if_splits)
  qed
qed

lemma map_nth_filter:
  "map (\<lambda>p. xs ! p) (filter (\<lambda>p. P (xs ! p)) [0..<length xs]) = filter P xs"
proof -
  have "filter P xs = filter P (map (\<lambda>p. xs ! p) [0..<length xs])" by (simp add: map_nth)
  also have "\<dots> = map (\<lambda>p. xs ! p) (filter (P \<circ> (\<lambda>p. xs ! p)) [0..<length xs])"
    by (rule filter_map)
  finally show ?thesis by (simp add: comp_def)
qed

lemma concat_uniform_nth:
  assumes "\<forall>r \<in> set rows. length r = n" "i < length rows" "j < n"
  shows "concat rows ! (i * n + j) = rows ! i ! j"
  using assms
proof (induction rows arbitrary: i)
  case Nil
  then show ?case by simp
next
  case (Cons r rows)
  show ?case
  proof (cases i)
    case 0
    with Cons.prems show ?thesis by (simp add: nth_append)
  next
    case (Suc k)
    have "concat (r # rows) ! (i * n + j) = (r @ concat rows) ! (length r + (k * n + j))"
      using Suc Cons.prems(1) by (simp add: add.assoc)
    also have "\<dots> = concat rows ! (k * n + j)" by (rule nth_append_length_plus)
    also have "\<dots> = rows ! k ! j" using Cons.IH [of k] Cons.prems Suc by simp
    finally show ?thesis using Suc by simp
  qed
qed

lemma in_set_concat_map2:
  "k \<in> set (concat (map (\<lambda>i. map (g i) (h i)) xs)) \<longleftrightarrow> (\<exists>i \<in> set xs. \<exists>j \<in> set (h i). k = g i j)"
  by auto

lemma in_indices_in_flatTriuMatrix:
  "k \<in> set (indices_in_flatTriuMatrix n) \<longleftrightarrow> (\<exists>i j. i < j \<and> j < n \<and> k = i * n + j)"
proof -
  have "k \<in> set (indices_in_flatTriuMatrix n)
          \<longleftrightarrow> (\<exists>i \<in> set [0..<n]. \<exists>j \<in> set [Suc i..<n]. k = i * n + j)"
    unfolding indices_in_flatTriuMatrix_def by (rule in_set_concat_map2)
  also have "\<dots> \<longleftrightarrow> (\<exists>i j. i < j \<and> j < n \<and> k = i * n + j)"
  proof
    assume "\<exists>i \<in> set [0..<n]. \<exists>j \<in> set [Suc i..<n]. k = i * n + j"
    then obtain i j where "i \<in> set [0..<n]" "j \<in> set [Suc i..<n]" "k = i * n + j" by blast
    then have "i < j \<and> j < n \<and> k = i * n + j" by simp
    then show "\<exists>i j. i < j \<and> j < n \<and> k = i * n + j" by blast
  next
    assume "\<exists>i j. i < j \<and> j < n \<and> k = i * n + j"
    then obtain i j where ij: "i < j" "j < n" "k = i * n + j" by blast
    then have "i \<in> set [0..<n]" "j \<in> set [Suc i..<n]" by simp_all
    with ij(3) show "\<exists>i \<in> set [0..<n]. \<exists>j \<in> set [Suc i..<n]. k = i * n + j" by blast
  qed
  finally show ?thesis .
qed

lemma set_hkls_pairs_index:
  "set (hkls_pairs_index angle0 hkl)
     = {(i, j). i < j \<and> j < length hkl \<and> angle0 (hkl ! i) (hkl ! j)}"
proof -
  define n where "n = length hkl"
  define ra where "ra = concat (map (\<lambda>a. map (\<lambda>b. angle0 a b) hkl) hkl)"
  define ind where "ind = indices_in_flatTriuMatrix n"
  have ra: "ra ! (i * n + j) = angle0 (hkl ! i) (hkl ! j)" if "i < n" "j < n" for i j
  proof -
    have "ra ! (i * n + j) = map (\<lambda>a. map (\<lambda>b. angle0 a b) hkl) hkl ! i ! j"
      unfolding ra_def using that by (intro concat_uniform_nth) (auto simp: n_def)
    then show ?thesis using that by (simp add: n_def)
  qed
  have "filter (\<lambda>p. map (\<lambda>k. ra ! k) ind ! p) [0..<length (map (\<lambda>k. ra ! k) ind)]
          = filter (\<lambda>p. ra ! (ind ! p)) [0..<length ind]"
    by (intro filter_cong) simp_all
  then have "hkls_pairs_index angle0 hkl
          = map (\<lambda>k. (k div n, k mod n))
              (map (\<lambda>p. ind ! p) (filter (\<lambda>p. ra ! (ind ! p)) [0..<length ind]))"
    by (simp add: hkls_pairs_index_def Let_def indices_in_TriuMatrix_def n_def ra_def ind_def)
  also have "\<dots> = map (\<lambda>k. (k div n, k mod n)) (filter (\<lambda>k. ra ! k) ind)"
    by (simp only: map_nth_filter)
  finally have eq: "hkls_pairs_index angle0 hkl
          = map (\<lambda>k. (k div n, k mod n)) (filter (\<lambda>k. ra ! k) ind)" .
  show ?thesis
  proof (intro set_eqI iffI)
    fix x assume "x \<in> set (hkls_pairs_index angle0 hkl)"
    then obtain k where k: "k \<in> set ind" "ra ! k" "x = (k div n, k mod n)"
      using eq by auto
    from k(1) obtain i j where ij: "k = i * n + j" "i < j" "j < n"
      unfolding ind_def in_indices_in_flatTriuMatrix by blast
    then have "k div n = i" "k mod n = j" by simp_all
    moreover have "angle0 (hkl ! i) (hkl ! j)" using ra [of i j] ij k(2) by simp
    ultimately show "x \<in> {(i, j). i < j \<and> j < length hkl \<and> angle0 (hkl ! i) (hkl ! j)}"
      using k(3) ij by (simp add: n_def)
  next
    fix x assume "x \<in> {(i, j). i < j \<and> j < length hkl \<and> angle0 (hkl ! i) (hkl ! j)}"
    then obtain i j where ij: "x = (i, j)" "i < j" "j < n" "angle0 (hkl ! i) (hkl ! j)"
      by (auto simp: n_def)
    have "i * n + j \<in> set ind"
      unfolding ind_def in_indices_in_flatTriuMatrix using ij by blast
    moreover have "ra ! (i * n + j)" using ra [of i j] ij by simp
    moreover have "(i * n + j) div n = i" "(i * n + j) mod n = j" using ij by simp_all
    ultimately have "(i, j) \<in> set (map (\<lambda>k. (k div n, k mod n)) (filter (\<lambda>k. ra ! k) ind))"
      by (force simp: image_iff)
    then show "x \<in> set (hkls_pairs_index angle0 hkl)" using eq ij(1) by simp
  qed
qed

subsection \<open>Groups, representatives and removed indices\<close>

lemma tokeep_rep: "tokeep angle0 hkl = map (clique_representative hkl) (cliques_of_harmonics angle0 hkl)"
  by (simp add: tokeep_def)

lemma groups_disjoint:
  assumes "g \<in> set (getSets pairs)" "h \<in> set (getSets pairs)" "z \<in> set g" "z \<in> set h"
  shows "g = h"
proof -
  have "set g = set h"
    using getSets_class [OF assms(1,3)] getSets_class [OF assms(2,4)] by simp
  moreover have "sorted g" "distinct g" "sorted h" "distinct h"
    using getSets_wf assms(1,2) by blast+
  ultimately show ?thesis by (simp add: sorted_distinct_set_unique)
qed

lemma same_group_iff:
  "(\<exists>g \<in> set (getSets pairs). a \<in> set g \<and> b \<in> set g)
     \<longleftrightarrow> a \<in> nodes pairs \<and> (a, b) \<in> connected pairs"
proof
  assume "\<exists>g \<in> set (getSets pairs). a \<in> set g \<and> b \<in> set g"
  then obtain g where g: "g \<in> set (getSets pairs)" "a \<in> set g" "b \<in> set g" by blast
  have "a \<in> nodes pairs" using g(1,2) getSets_union [of pairs] by blast
  moreover have "(a, b) \<in> connected pairs" using getSets_class [OF g(1,2)] g(3) by blast
  ultimately show "a \<in> nodes pairs \<and> (a, b) \<in> connected pairs" by simp
next
  assume ab: "a \<in> nodes pairs \<and> (a, b) \<in> connected pairs"
  then obtain g where g: "g \<in> set (getSets pairs)" "a \<in> set g"
    using getSets_union [of pairs] by blast
  then have "b \<in> set g" using getSets_class [OF g] ab by blast
  with g show "\<exists>g \<in> set (getSets pairs). a \<in> set g \<and> b \<in> set g" by blast
qed

lemma pair_same_group:
  assumes "(a, b) \<in> set pairs"
  shows "\<exists>g \<in> set (getSets pairs). a \<in> set g \<and> b \<in> set g"
proof -
  have "a \<in> nodes pairs" using assms by (force simp: nodes_def)
  moreover have "(a, b) \<in> connected pairs" using assms by (rule connected_edge)
  ultimately show ?thesis by (simp add: same_group_iff)
qed

lemma group_has_pair:
  assumes "g \<in> set (getSets pairs)"
  shows "\<exists>(a, b) \<in> set pairs. a \<in> set g \<and> b \<in> set g"
proof -
  from getSets_wf [OF assms] obtain x where x: "x \<in> set g" by (cases g) auto
  then have "x \<in> nodes pairs" using assms getSets_union [of pairs] by blast
  then obtain a b where ab: "(a, b) \<in> set pairs" "x = a \<or> x = b"
    by (auto simp: nodes_def)
  from pair_same_group [OF ab(1)] obtain h where
    h: "h \<in> set (getSets pairs)" "a \<in> set h" "b \<in> set h" by blast
  have "g = h" using groups_disjoint [OF assms h(1) x] ab(2) h(2,3) by blast
  with h ab(1) show ?thesis by blast
qed

lemma representative_props:
  assumes "g \<noteq> []" "sorted g" "distinct g"
  shows "clique_representative hkl g \<in> set g"
    and "\<forall>m \<in> set g. sum_abs (hkl ! clique_representative hkl g) \<le> sum_abs (hkl ! m)"
    and "\<forall>m \<in> set g. sum_abs (hkl ! m) = sum_abs (hkl ! clique_representative hkl g)
           \<longrightarrow> clique_representative hkl g \<le> m"
proof -
  let ?f = "map (\<lambda>i. sum_abs (hkl ! i)) g"
  let ?k = "argmin ?f"
  have k: "?k < length g" using argmin_less [of ?f] assms(1) by simp
  have r: "clique_representative hkl g = g ! ?k" by (simp add: clique_representative_def)
  show "clique_representative hkl g \<in> set g" using k r by simp
  show "\<forall>m \<in> set g. sum_abs (hkl ! clique_representative hkl g) \<le> sum_abs (hkl ! m)"
  proof
    fix m assume "m \<in> set g"
    then obtain p where p: "p < length g" "m = g ! p" by (auto simp: in_set_conv_nth)
    then have "?f ! ?k \<le> ?f ! p" using argmin_least [of p ?f] by simp
    with p k r show "sum_abs (hkl ! clique_representative hkl g) \<le> sum_abs (hkl ! m)" by simp
  qed
  show "\<forall>m \<in> set g. sum_abs (hkl ! m) = sum_abs (hkl ! clique_representative hkl g)
           \<longrightarrow> clique_representative hkl g \<le> m"
  proof (intro ballI impI)
    fix m assume m: "m \<in> set g"
      and eq: "sum_abs (hkl ! m) = sum_abs (hkl ! clique_representative hkl g)"
    from m obtain p where p: "p < length g" "m = g ! p" by (auto simp: in_set_conv_nth)
    have "\<not> p < ?k"
    proof
      assume "p < ?k"
      then have "?f ! ?k < ?f ! p" by (rule argmin_first)
      with p k r eq show False by simp
    qed
    then have "?k \<le> p" by simp
    then have "g ! ?k \<le> g ! p" using assms(2) p(1) by (simp add: sorted_iff_nth_mono)
    with r p show "clique_representative hkl g \<le> m" by simp
  qed
qed

lemma group_wf:
  assumes "g \<in> set (cliques_of_harmonics angle0 hkl)"
  shows "g \<noteq> []" "sorted g" "distinct g"
  using getSets_wf assms unfolding cliques_of_harmonics_def by blast+


lemma group_size:
  assumes "g \<in> set (cliques_of_harmonics angle0 hkl)"
  shows "1 < length g"
proof -
  from group_has_pair [OF assms [unfolded cliques_of_harmonics_def]]
  obtain a b where ab: "(a, b) \<in> set (hkls_pairs_index angle0 hkl)" "a \<in> set g" "b \<in> set g"
    by blast
  then have "a \<noteq> b" by (auto simp: set_hkls_pairs_index)
  then have two: "card {a, b} = 2" by simp
  have "{a, b} \<subseteq> set g" using ab(2,3) by simp
  then have "card {a, b} \<le> card (set g)" by (intro card_mono) simp_all
  then have "2 \<le> length g" using card_length [of g] two by linarith
  then show ?thesis by simp
qed

lemma toremove_iff:
  "i \<in> set (toremove angle0 hkl)
     \<longleftrightarrow> (\<exists>g \<in> set (cliques_of_harmonics angle0 hkl). i \<in> set g \<and> i \<noteq> clique_representative hkl g)"
proof
  assume "i \<in> set (toremove angle0 hkl)"
  then obtain g where g: "g \<in> set (cliques_of_harmonics angle0 hkl)" "i \<in> set g"
    and nk: "i \<notin> set (tokeep angle0 hkl)"
    by (auto simp: toremove_def Let_def)
  have "clique_representative hkl g \<in> set (tokeep angle0 hkl)"
    using g(1) by (simp add: tokeep_rep)
  with nk have "i \<noteq> clique_representative hkl g" by auto
  with g show "\<exists>g \<in> set (cliques_of_harmonics angle0 hkl). i \<in> set g \<and> i \<noteq> clique_representative hkl g"
    by blast
next
  assume "\<exists>g \<in> set (cliques_of_harmonics angle0 hkl). i \<in> set g \<and> i \<noteq> clique_representative hkl g"
  then obtain g where g: "g \<in> set (cliques_of_harmonics angle0 hkl)" "i \<in> set g"
    "i \<noteq> clique_representative hkl g" by blast
  have "i \<notin> set (tokeep angle0 hkl)"
  proof
    assume "i \<in> set (tokeep angle0 hkl)"
    then obtain h where h: "h \<in> set (cliques_of_harmonics angle0 hkl)"
      "i = clique_representative hkl h"
      by (auto simp: tokeep_rep)
    have "i \<in> set h" using representative_props(1) [OF group_wf [OF h(1)]] h(2) by simp
    then have "g = h"
      using groups_disjoint g(1,2) h(1) unfolding cliques_of_harmonics_def by blast
    with g(3) h(2) show False by simp
  qed
  with g(1,2) show "i \<in> set (toremove angle0 hkl)"
    by (auto simp: toremove_def Let_def)
qed

lemma np_delete_Nil: "np_delete arr [] = arr"
  by (simp add: np_delete_def map_nth)

lemma no_pairs_toremove:
  assumes "hkls_pairs_index angle0 hkl = []"
  shows "toremove angle0 hkl = []"
  using assms by (simp add: toremove_def cliques_of_harmonics_def)

lemma FilterHarmonics_2_np_delete:
  "FilterHarmonics_2 angle0 hkl = np_delete hkl (toremove angle0 hkl)"
proof (cases "hkls_pairs_index angle0 hkl = []")
  case True
  then show ?thesis
    by (simp add: FilterHarmonics_2_def no_pairs_toremove np_delete_Nil)
next
  case False
  then obtain i j where "(i, j) \<in> set (hkls_pairs_index angle0 hkl)"
    by (cases "hkls_pairs_index angle0 hkl") auto
  then have "i < j" "j < length hkl" by (auto simp: set_hkls_pairs_index)
  then have "length hkl \<noteq> 1" by simp
  with False show ?thesis by (simp add: FilterHarmonics_2_def)
qed

lemma np_delete_nths: "np_delete arr obj = nths arr {i. i \<notin> set obj}"
proof -
  have zip: "zip arr [0..<length arr] = map (\<lambda>i. (arr ! i, i)) [0..<length arr]"
    by (rule nth_equalityI) simp_all
  have "nths arr {i. i \<notin> set obj}
          = map fst (filter (\<lambda>p. snd p \<notin> set obj) (map (\<lambda>i. (arr ! i, i)) [0..<length arr]))"
    by (simp add: nths_def zip)
  also have "\<dots> = map (\<lambda>i. arr ! i) (filter (\<lambda>i. i \<notin> set obj) [0..<length arr])"
    by (simp add: filter_map comp_def)
  finally show ?thesis by (simp add: np_delete_def)
qed

lemma nodes_Field: "nodes pairs = Field (set pairs)"
  by (auto simp: nodes_def Field_def Domain_fst Range_snd)

lemma kept_no_pairs: "hkls_pairs_index angle0 (np_delete hkl (toremove angle0 hkl)) = []"
proof -
  let ?R = "set (toremove angle0 hkl)"
  let ?kept = "filter (\<lambda>i. i \<notin> ?R) [0..<length hkl]"
  let ?out = "np_delete hkl (toremove angle0 hkl)"
  have out: "?out = map (\<lambda>i. hkl ! i) ?kept" by (simp add: np_delete_def)
  have asc: "sorted_wrt (<) ?kept" by (intro sorted_wrt_filter) (rule sorted_wrt_upt)
  have "set (hkls_pairs_index angle0 ?out) = {}"
  proof (rule ccontr)
    assume "set (hkls_pairs_index angle0 ?out) \<noteq> {}"
    then obtain p q where pq: "p < q" "q < length ?out" "angle0 (?out ! p) (?out ! q)"
      by (auto simp: set_hkls_pairs_index)
    have len: "q < length ?kept" "p < length ?kept" using pq(1,2) out by simp_all
    have lt: "?kept ! p < ?kept ! q" using asc pq(1) len(1) by (rule sorted_wrt_nth_less)
    have memq: "?kept ! q \<in> set ?kept" and memp: "?kept ! p \<in> set ?kept"
      using len by (simp_all only: nth_mem)
    then have inq: "?kept ! q < length hkl" "?kept ! q \<notin> ?R" "?kept ! p \<notin> ?R" by auto
    have "angle0 (hkl ! (?kept ! p)) (hkl ! (?kept ! q))"
      using pq(3) len unfolding out by simp
    then have "(?kept ! p, ?kept ! q) \<in> set (hkls_pairs_index angle0 hkl)"
      using lt inq(1) by (simp add: set_hkls_pairs_index)
    from pair_same_group [OF this] obtain g where
      g: "g \<in> set (cliques_of_harmonics angle0 hkl)" "?kept ! p \<in> set g" "?kept ! q \<in> set g"
      unfolding cliques_of_harmonics_def by blast
    have "?kept ! p = clique_representative hkl g" "?kept ! q = clique_representative hkl g"
      using toremove_iff [of "?kept ! p" angle0 hkl] toremove_iff [of "?kept ! q" angle0 hkl]
        inq(2,3) g by blast+
    with lt show False by simp
  qed
  then show ?thesis by simp
qed

subsection \<open>Claim C4\<close>

text \<open>
  C4. Two indices are in one group of \<open>FilterHarmonics_2\<close> exactly when a chain of
  pairs at rounded angle \<open>0\<close> joins them: the groups are the connected components of
  the relation, for any test \<open>angle0\<close>. In particular, if \<open>a\<close> and \<open>b\<close> are at angle
  \<open>0\<close> and \<open>b\<close> and \<open>c\<close> are, then \<open>a\<close>, \<open>b\<close> and \<open>c\<close> are in one group, whether or not
  \<open>a\<close> and \<open>c\<close> are at angle \<open>0\<close>.
\<close>

theorem cliques_of_harmonics_components:
  "((\<exists>g \<in> set (cliques_of_harmonics angle0 hkl). i \<in> set g \<and> j \<in> set g)
      = (i \<in> Field (zero_angle_relation angle0 hkl)
         \<and> (i, j) \<in> (zero_angle_relation angle0 hkl \<union> (zero_angle_relation angle0 hkl)\<inverse>)\<^sup>*))
   \<and> ((a, b) \<in> zero_angle_relation angle0 hkl \<union> (zero_angle_relation angle0 hkl)\<inverse>
        \<and> (b, c) \<in> zero_angle_relation angle0 hkl \<union> (zero_angle_relation angle0 hkl)\<inverse>
      \<longrightarrow> (\<exists>g \<in> set (cliques_of_harmonics angle0 hkl). a \<in> set g \<and> b \<in> set g \<and> c \<in> set g))"
proof -
  let ?H = "zero_angle_relation angle0 hkl"
  let ?ps = "hkls_pairs_index angle0 hkl"
  have H: "set ?ps = ?H" by (simp add: set_hkls_pairs_index zero_angle_relation_def)
  have iff: "(\<exists>g \<in> set (cliques_of_harmonics angle0 hkl). x \<in> set g \<and> y \<in> set g)
      = (x \<in> Field ?H \<and> (x, y) \<in> (?H \<union> ?H\<inverse>)\<^sup>*)" for x y
    using same_group_iff [of ?ps x y]
    by (simp add: cliques_of_harmonics_def nodes_Field connected_def H)
  have chain: "\<exists>g \<in> set (cliques_of_harmonics angle0 hkl). a \<in> set g \<and> b \<in> set g \<and> c \<in> set g"
    if ab: "(a, b) \<in> ?H \<union> ?H\<inverse>" and bc: "(b, c) \<in> ?H \<union> ?H\<inverse>"
  proof -
    have fb: "b \<in> Field ?H" using bc by (auto simp: Field_def)
    have "(b, a) \<in> ?H \<union> ?H\<inverse>" using ab by auto
    then have "(b, a) \<in> (?H \<union> ?H\<inverse>)\<^sup>*" "(b, c) \<in> (?H \<union> ?H\<inverse>)\<^sup>*" using bc by blast+
    with fb obtain g h where g: "g \<in> set (cliques_of_harmonics angle0 hkl)" "b \<in> set g" "a \<in> set g"
      and h: "h \<in> set (cliques_of_harmonics angle0 hkl)" "b \<in> set h" "c \<in> set h"
      using iff [of b a] iff [of b c] by blast
    have "g = h" using groups_disjoint g(1,2) h(1,2) unfolding cliques_of_harmonics_def by blast
    with g h show ?thesis by blast
  qed
  from iff [of i j] chain show ?thesis by blast
qed

theorem cliques_of_harmonics_components_witness:
  "(0, 1) \<in> zero_angle_relation (\<lambda>a b. \<bar>fst a - fst b\<bar> \<le> 1) [(0, 0, 0), (1, 0, 0), (2, 0, 0), (5, 0, 0)]
   \<and> (1, 2) \<in> zero_angle_relation (\<lambda>a b. \<bar>fst a - fst b\<bar> \<le> 1) [(0, 0, 0), (1, 0, 0), (2, 0, 0), (5, 0, 0)]
   \<and> (0, 2) \<notin> zero_angle_relation (\<lambda>a b. \<bar>fst a - fst b\<bar> \<le> 1) [(0, 0, 0), (1, 0, 0), (2, 0, 0), (5, 0, 0)]
   \<and> cliques_of_harmonics (\<lambda>a b. \<bar>fst a - fst b\<bar> \<le> 1) [(0, 0, 0), (1, 0, 0), (2, 0, 0), (5, 0, 0)]
       = [[0, 1, 2]]"
proof -
  let ?Z = "\<lambda>a b :: hkl. \<bar>fst a - fst b\<bar> \<le> 1"
  let ?hkl = "[(0, 0, 0), (1, 0, 0), (2, 0, 0), (5, 0, 0)] :: hkl list"
  have r: "(0, 1) \<in> zero_angle_relation ?Z ?hkl" "(1, 2) \<in> zero_angle_relation ?Z ?hkl"
    "(0, 2) \<notin> zero_angle_relation ?Z ?hkl"
    by (simp_all add: zero_angle_relation_def)
  have g: "cliques_of_harmonics ?Z ?hkl = [[0, 1, 2]]" by code_simp
  from cliques_of_harmonics_components [of ?Z ?hkl 0 2 0 1 2] r g show ?thesis by simp
qed

subsection \<open>Parallel vectors\<close>

lemma lagrange:
  fixes a1 a2 a3 b1 b2 b3 :: int
  shows "(a1 * a1 + a2 * a2 + a3 * a3) * (b1 * b1 + b2 * b2 + b3 * b3)
           - (a1 * b1 + a2 * b2 + a3 * b3) * (a1 * b1 + a2 * b2 + a3 * b3)
         = (a1 * b2 - a2 * b1) * (a1 * b2 - a2 * b1)
           + (a1 * b3 - a3 * b1) * (a1 * b3 - a3 * b1)
           + (a2 * b3 - a3 * b2) * (a2 * b3 - a3 * b2)"
  by (simp add: algebra_simps)







lemma cauchy_schwarz: "dot a b * dot a b \<le> dot a a * dot b b"
proof -
  obtain a1 a2 a3 where a: "a = (a1, a2, a3)" by (cases a)
  obtain b1 b2 b3 where b: "b = (b1, b2, b3)" by (cases b)
  define A where "A = (a1 * a1 + a2 * a2 + a3 * a3) * (b1 * b1 + b2 * b2 + b3 * b3)"
  define D where "D = (a1 * b1 + a2 * b2 + a3 * b3) * (a1 * b1 + a2 * b2 + a3 * b3)"
  define S where "S = (a1 * b2 - a2 * b1) * (a1 * b2 - a2 * b1)
           + (a1 * b3 - a3 * b1) * (a1 * b3 - a3 * b1)
           + (a2 * b3 - a3 * b2) * (a2 * b3 - a3 * b2)"
  have "0 \<le> S" unfolding S_def by (intro add_nonneg_nonneg) simp_all
  moreover have "A - D = S" unfolding A_def D_def S_def by (rule lagrange)
  ultimately have "D \<le> A" by linarith
  then show ?thesis by (simp add: a b dot_def A_def D_def)
qed

lemma clip_eq_1: "max (- 1) (min 1 x) = 1 \<longleftrightarrow> 1 \<le> (x::real)"
  by (auto simp: max_def min_def)

lemma clip_eq_minus_1: "max (- 1) (min 1 x) = - 1 \<longleftrightarrow> (x::real) \<le> - 1"
  by (auto simp: max_def min_def)

lemma arccos_eq_0_iff: "- 1 \<le> c \<Longrightarrow> c \<le> 1 \<Longrightarrow> arccos c = 0 \<longleftrightarrow> c = 1"
  by (metis arccos_1 cos_arccos cos_zero)

lemma arccos_eq_pi_iff: "- 1 \<le> c \<Longrightarrow> c \<le> 1 \<Longrightarrow> arccos c = pi \<longleftrightarrow> c = - 1"
  by (metis arccos_minus_1 cos_arccos cos_pi)

lemma ratio_ge_1_iff:
  fixes D P :: int
  assumes "D * D \<le> P"
  shows "1 \<le> real_of_int D / sqrt (real_of_int P) \<longleftrightarrow> 0 < D \<and> D * D = P"
proof (cases "P = 0")
  case True
  with assms have "D = 0"
    by (metis mult_eq_0_iff order_antisym zero_le_square)
  with True show ?thesis by simp
next
  case False
  have "0 \<le> D * D" by simp
  with assms False have P: "0 < P" by linarith
  then have sp: "0 < sqrt (real_of_int P)" by simp
  have "1 \<le> real_of_int D / sqrt (real_of_int P) \<longleftrightarrow> sqrt (real_of_int P) \<le> real_of_int D"
    using sp by (simp add: pos_le_divide_eq)
  also have "\<dots> \<longleftrightarrow> 0 < D \<and> P \<le> D * D"
  proof
    assume h: "sqrt (real_of_int P) \<le> real_of_int D"
    then have "0 < real_of_int D" using sp by linarith
    moreover have "real_of_int P \<le> real_of_int D * real_of_int D"
    proof -
      have d0: "0 \<le> real_of_int D" by (rule order_trans [OF less_imp_le [OF sp] h])
      have "sqrt (real_of_int P) * sqrt (real_of_int P) \<le> real_of_int D * real_of_int D"
        by (rule mult_mono [OF h h d0 less_imp_le [OF sp]])
      then show ?thesis using P by simp
    qed
    ultimately show "0 < D \<and> P \<le> D * D"
      by (metis of_int_0_less_iff of_int_le_iff of_int_mult)
  next
    assume h: "0 < D \<and> P \<le> D * D"
    then have "real_of_int P \<le> (real_of_int D)\<^sup>2"
      by (metis of_int_le_iff of_int_mult power2_eq_square)
    then have "sqrt (real_of_int P) \<le> sqrt ((real_of_int D)\<^sup>2)" by (rule real_sqrt_le_mono)
    then show "sqrt (real_of_int P) \<le> real_of_int D" using h by simp
  qed
  also have "\<dots> \<longleftrightarrow> 0 < D \<and> D * D = P" using assms by auto
  finally show ?thesis .
qed

lemma AngleBetweenVectors_deg_0: "AngleBetweenVectors_deg a b = 0 \<longleftrightarrow> same_direction a b"
proof -
  let ?x = "real_of_int (dot a b) / sqrt (real_of_int (dot a a) * real_of_int (dot b b))"
  let ?c = "max (- 1) (min 1 ?x)"
  have "AngleBetweenVectors_deg a b = 0 \<longleftrightarrow> arccos ?c = 0"
    by (simp add: AngleBetweenVectors_deg_def)
  also have "\<dots> \<longleftrightarrow> ?c = 1" by (intro arccos_eq_0_iff) simp_all
  also have "\<dots> \<longleftrightarrow> 1 \<le> ?x" by (rule clip_eq_1)
  also have "\<dots> \<longleftrightarrow> 1 \<le> real_of_int (dot a b) / sqrt (real_of_int (dot a a * dot b b))"
    by simp
  also have "\<dots> \<longleftrightarrow> 0 < dot a b \<and> dot a b * dot a b = dot a a * dot b b"
    by (rule ratio_ge_1_iff) (rule cauchy_schwarz)
  finally show ?thesis by (simp add: same_direction_def)
qed

lemma AngleBetweenVectors_deg_180: "AngleBetweenVectors_deg a b = 180 \<longleftrightarrow> opposite_direction a b"
proof -
  let ?P = "dot a a * dot b b"
  let ?x = "real_of_int (dot a b) / sqrt (real_of_int (dot a a) * real_of_int (dot b b))"
  let ?c = "max (- 1) (min 1 ?x)"
  have cs: "(- dot a b) * (- dot a b) \<le> ?P" using cauchy_schwarz [of a b] by simp
  have "AngleBetweenVectors_deg a b = 180 \<longleftrightarrow> arccos ?c = pi"
    by (simp add: AngleBetweenVectors_deg_def field_simps)
  also have "\<dots> \<longleftrightarrow> ?c = - 1" by (intro arccos_eq_pi_iff) simp_all
  also have "\<dots> \<longleftrightarrow> ?x \<le> - 1" by (rule clip_eq_minus_1)
  also have "\<dots> \<longleftrightarrow> 1 \<le> real_of_int (- dot a b) / sqrt (real_of_int ?P)"
    by simp
  also have "\<dots> \<longleftrightarrow> 0 < - dot a b \<and> (- dot a b) * (- dot a b) = ?P"
    using cs by (rule ratio_ge_1_iff)
  finally show ?thesis by (simp add: opposite_direction_def)
qed

subsection \<open>The rounded angle\<close>

lemma round_half_even_eq_0: "round_half_even y = 0 \<longleftrightarrow> - (1 / 2) \<le> y \<and> y \<le> 1 / 2"
proof -
  define f where "f = \<lfloor>y\<rfloor>"
  define r where "r = y - real_of_int f"
  have r: "0 \<le> r" "r < 1" unfolding r_def f_def by linarith+
  have y: "y = real_of_int f + r" by (simp add: r_def)
  have rhe: "round_half_even y
      = (if r < 1 / 2 then f else if 1 / 2 < r then f + 1 else if even f then f else f + 1)"
    by (simp add: round_half_even_def Let_def f_def r_def)
  consider (lo) "r < 1 / 2" | (hi) "1 / 2 < r" | (tie) "r = 1 / 2" by linarith
  then show ?thesis
  proof cases
    case lo
    then have "round_half_even y = f" using rhe by simp
    moreover have "f = 0 \<longleftrightarrow> - (1 / 2) \<le> y \<and> y \<le> 1 / 2"
    proof
      assume "f = 0" with y r lo show "- (1 / 2) \<le> y \<and> y \<le> 1 / 2" by simp
    next
      assume h: "- (1 / 2) \<le> y \<and> y \<le> 1 / 2"
      have "real_of_int f \<le> 1 / 2" "- 1 < real_of_int f" using h y r lo by linarith+
      then have "f \<le> 0" "- 1 < f" by linarith+
      then show "f = 0" by simp
    qed
    ultimately show ?thesis by simp
  next
    case hi
    then have "round_half_even y = f + 1" using rhe by simp
    moreover have "f + 1 = 0 \<longleftrightarrow> - (1 / 2) \<le> y \<and> y \<le> 1 / 2"
    proof
      assume "f + 1 = 0"
      then have "real_of_int f = - 1" by simp
      with y r hi show "- (1 / 2) \<le> y \<and> y \<le> 1 / 2" by simp
    next
      assume h: "- (1 / 2) \<le> y \<and> y \<le> 1 / 2"
      have "real_of_int f < 0" "- 2 < real_of_int f" using h y r hi by linarith+
      then have "f < 0" "- 2 < f" by linarith+
      then show "f + 1 = 0" by simp
    qed
    ultimately show ?thesis by simp
  next
    case tie
    have yf: "y = real_of_int f + 1 / 2" using y tie by simp
    show ?thesis
    proof (cases "even f")
      case True
      then have "round_half_even y = f" using rhe tie by simp
      moreover have "f = 0 \<longleftrightarrow> - (1 / 2) \<le> y \<and> y \<le> 1 / 2"
      proof
        assume "f = 0" with yf show "- (1 / 2) \<le> y \<and> y \<le> 1 / 2" by simp
      next
        assume h: "- (1 / 2) \<le> y \<and> y \<le> 1 / 2"
        have "real_of_int f \<le> 0" "- 1 \<le> real_of_int f" using h yf by linarith+
        then have "f \<le> 0" "- 1 \<le> f" by linarith+
        then have "f = 0 \<or> f = - 1" by linarith
        with True show "f = 0" by auto
      qed
      ultimately show ?thesis by simp
    next
      case False
      then have "round_half_even y = f + 1" using rhe tie by simp
      moreover have "f + 1 = 0 \<longleftrightarrow> - (1 / 2) \<le> y \<and> y \<le> 1 / 2"
      proof
        assume "f + 1 = 0"
        then have "real_of_int f = - 1" by simp
        with yf show "- (1 / 2) \<le> y \<and> y \<le> 1 / 2" by simp
      next
        assume h: "- (1 / 2) \<le> y \<and> y \<le> 1 / 2"
        have "real_of_int f \<le> 0" "- 1 \<le> real_of_int f" using h yf by linarith+
        then have "f \<le> 0" "- 1 \<le> f" by linarith+
        then have "f = 0 \<or> f = - 1" by linarith
        with False show "f + 1 = 0" by auto
      qed
      ultimately show ?thesis by simp
    qed
  qed
qed

lemma np_round_9_eq_0: "np_round x 9 = 0 \<longleftrightarrow> \<bar>x\<bar> \<le> 5 / 10 ^ 10"
proof -
  have "np_round x 9 = 0 \<longleftrightarrow> round_half_even (x * 10 ^ 9) = 0"
    by (simp add: np_round_def)
  also have "\<dots> \<longleftrightarrow> - (1 / 2) \<le> x * 10 ^ 9 \<and> x * 10 ^ 9 \<le> 1 / 2"
    by (rule round_half_even_eq_0)
  also have "\<dots> \<longleftrightarrow> \<bar>x\<bar> \<le> 5 / 10 ^ 10" by (simp add: abs_le_iff) linarith
  finally show ?thesis .
qed

lemma same_direction_angle_is_0: "same_direction a b \<Longrightarrow> angle_is_0 a b"
  using AngleBetweenVectors_deg_0 [of a b] by (simp add: angle_is_0_def np_round_9_eq_0)

lemma angle_deg_lower:
  assumes "1 / 10 ^ 6 \<le> sin (arccos c)" "- 1 \<le> c" "c \<le> 1"
  shows "5 / 10 ^ 10 < arccos c * 180 / pi"
proof -
  have t0: "0 \<le> arccos c" using assms(2,3) by (rule arccos_lbound)
  have "sin (arccos c) \<le> arccos c" using t0 by (rule sin_x_le_x)
  then have t: "1 / 10 ^ 6 \<le> arccos c" using assms(1) by linarith
  have "pi < 4" by (rule pi_less_4)
  then have "5 / 10 ^ 10 * pi < 5 / 10 ^ 10 * 4" by simp
  also have "\<dots> \<le> (1 / 10 ^ 6) * 180" by simp
  also have "\<dots> \<le> arccos c * 180" using t by simp
  finally have "5 / 10 ^ 10 * pi < arccos c * 180" .
  then show ?thesis using pi_gt_zero by (simp add: pos_less_divide_eq)
qed

lemma angle_not_rounded_to_0:
  assumes ns: "\<not> same_direction a b" and bound: "dot a a * dot b b \<le> 10 ^ 12"
  shows "5 / 10 ^ 10 < AngleBetweenVectors_deg a b"
proof -
  define D where "D = dot a b"
  define P where "P = dot a a * dot b b"
  have cs: "D * D \<le> P" unfolding D_def P_def by (rule cauchy_schwarz)
  have P0: "0 \<le> P" using cs zero_le_square [of D] by linarith
  let ?x = "real_of_int D / sqrt (real_of_int P)"
  have deg: "AngleBetweenVectors_deg a b = arccos (max (- 1) (min 1 ?x)) * 180 / pi"
    by (simp add: AngleBetweenVectors_deg_def D_def P_def)
  consider (zero) "P = 0" | (col) "0 < P" "D * D = P" | (gen) "0 < P" "D * D < P"
    using cs P0 by linarith
  then show ?thesis
  proof cases
    case zero
    then have "AngleBetweenVectors_deg a b = 90" using deg by (simp add: arccos_0)
    then show ?thesis by simp
  next
    case col
    have "\<not> 0 < D" using ns col(2) by (simp add: same_direction_def D_def P_def)
    moreover have "D \<noteq> 0" using col by auto
    ultimately have "D < 0" by simp
    then have "opposite_direction a b" using col(2) by (simp add: opposite_direction_def D_def P_def)
    then have "AngleBetweenVectors_deg a b = 180" by (simp add: AngleBetweenVectors_deg_180)
    then show ?thesis by simp
  next
    case gen
    have Pr: "0 < real_of_int P" using gen(1) by simp
    have gap: "1 \<le> P - D * D" using gen(2) by simp
    have x2: "?x * ?x = real_of_int (D * D) / real_of_int P"
      using Pr by (simp add: field_simps)
    have "real_of_int (D * D) < real_of_int P" using gen(2) by (simp only: of_int_less_iff)
    then have x2lt: "?x * ?x < 1" using Pr by (simp add: x2)
    have xb: "- 1 \<le> ?x" "?x \<le> 1"
    proof -
      have "?x\<^sup>2 < 1" using x2lt by (simp only: power2_eq_square)
      then have "\<bar>?x\<bar> < 1" by (simp only: abs_square_less_1)
      then show "- 1 \<le> ?x" "?x \<le> 1" by linarith+
    qed
    then have clip: "max (- 1) (min 1 ?x) = ?x" by (simp add: max_def min_def)
    have g: "1 \<le> real_of_int (P - D * D)" using gap by (simp only: of_int_1_le_iff)
    have "1 / real_of_int P \<le> real_of_int (P - D * D) / real_of_int P"
      by (rule divide_right_mono [OF g less_imp_le [OF Pr]])
    also have "\<dots> = 1 - ?x * ?x" using Pr by (simp add: x2 diff_divide_distrib)
    finally have low: "1 / real_of_int P \<le> 1 - ?x * ?x" .
    have "P \<le> 10 ^ 12" using bound by (simp only: P_def)
    then have "real_of_int P \<le> real_of_int (10 ^ 12)" by (simp only: of_int_le_iff)
    then have "real_of_int P \<le> 10 ^ 12" by simp
    then have "1 / 10 ^ 12 \<le> 1 / real_of_int P" using Pr by (intro divide_left_mono) simp_all
    with low have "1 / 10 ^ 12 \<le> 1 - ?x\<^sup>2" by (simp add: power2_eq_square)
    then have s1: "sqrt (1 / 10 ^ 12) \<le> sqrt (1 - ?x\<^sup>2)" by (rule real_sqrt_le_mono)
    have s2: "sqrt (1 / 10 ^ 12) = 1 / 10 ^ (6::nat)"
    proof -
      have "sqrt (1 / 10 ^ 12) = sqrt ((1 / 10 ^ 6)\<^sup>2)" by (simp add: power_divide)
      also have "\<dots> = 1 / 10 ^ 6" by (simp only: real_sqrt_abs) simp
      finally show ?thesis .
    qed
    have s3: "sin (arccos ?x) = sqrt (1 - ?x\<^sup>2)" using xb by (rule sin_arccos)
    have "1 / 10 ^ 6 \<le> sqrt (1 - ?x\<^sup>2)" using s1 by (simp only: s2)
    then have "1 / 10 ^ 6 \<le> sin (arccos ?x)" by (simp only: s3)
    from angle_deg_lower [OF this xb] show ?thesis using deg clip by simp
  qed
qed

lemma angle_is_0_exact:
  assumes "dot a a * dot b b \<le> 10 ^ 12"
  shows "angle_is_0 a b = same_direction a b"
proof (cases "same_direction a b")
  case True
  then show ?thesis by (simp add: same_direction_angle_is_0)
next
  case False
  from angle_not_rounded_to_0 [OF False assms]
  have "\<not> \<bar>AngleBetweenVectors_deg a b\<bar> \<le> 5 / 10 ^ 10" by linarith
  then show ?thesis using False by (simp add: angle_is_0_def np_round_9_eq_0)
qed

lemma dot_self_nonneg: "0 \<le> dot v v"
  by (cases v) (simp add: dot_def)

lemma angle_is_0_exact_on:
  assumes "\<forall>v \<in> set hkl. dot v v \<le> 10 ^ 6"
  shows "\<forall>a \<in> set hkl. \<forall>b \<in> set hkl. angle_is_0 a b = same_direction a b"
proof (intro ballI)
  fix a b assume "a \<in> set hkl" "b \<in> set hkl"
  then have "dot a a \<le> 10 ^ 6" "dot b b \<le> 10 ^ 6" using assms by blast+
  then have "dot a a * dot b b \<le> 10 ^ 6 * 10 ^ 6"
    using dot_self_nonneg [of b] by (intro mult_mono) simp_all
  then have "dot a a * dot b b \<le> 10 ^ 12" by simp
  then show "angle_is_0 a b = same_direction a b" by (rule angle_is_0_exact)
qed

subsection \<open>The filter reads the angle test on the vectors of the input only\<close>

lemma hkls_pairs_index_cong:
  assumes "\<forall>a \<in> set hkl. \<forall>b \<in> set hkl. t1 a b = t2 a b"
  shows "hkls_pairs_index t1 hkl = hkls_pairs_index t2 hkl"
proof -
  have "map (\<lambda>a. map (\<lambda>b. t1 a b) hkl) hkl = map (\<lambda>a. map (\<lambda>b. t2 a b) hkl) hkl"
    using assms by (intro map_cong) simp_all
  then show ?thesis by (simp only: hkls_pairs_index_def)
qed

lemma cliques_of_harmonics_cong:
  assumes "\<forall>a \<in> set hkl. \<forall>b \<in> set hkl. t1 a b = t2 a b"
  shows "cliques_of_harmonics t1 hkl = cliques_of_harmonics t2 hkl"
  by (simp only: cliques_of_harmonics_def hkls_pairs_index_cong [OF assms])

lemma toremove_cong:
  assumes "\<forall>a \<in> set hkl. \<forall>b \<in> set hkl. t1 a b = t2 a b"
  shows "toremove t1 hkl = toremove t2 hkl"
  by (simp only: toremove_def tokeep_def cliques_of_harmonics_cong [OF assms])

lemma FilterHarmonics_2_cong:
  assumes "\<forall>a \<in> set hkl. \<forall>b \<in> set hkl. t1 a b = t2 a b"
  shows "FilterHarmonics_2 t1 hkl = FilterHarmonics_2 t2 hkl"
  by (simp only: FilterHarmonics_2_def hkls_pairs_index_cong [OF assms] toremove_cong [OF assms])

subsection \<open>Sums of absolute values in \<open>int64\<close>\<close>

lemma int64_id: "- (2 ^ 63) \<le> x \<Longrightarrow> x < 2 ^ 63 \<Longrightarrow> int64 x = x"
  by (simp add: int64_def)

lemma sum_abs_no_wrap:
  assumes "\<bar>h\<bar> + \<bar>k\<bar> + \<bar>l\<bar> < 2 ^ 63"
  shows "sum_abs (h, k, l) = \<bar>h\<bar> + \<bar>k\<bar> + \<bar>l\<bar>"
proof -
  have "int64 \<bar>h\<bar> = \<bar>h\<bar>" "int64 \<bar>k\<bar> = \<bar>k\<bar>" "int64 \<bar>l\<bar> = \<bar>l\<bar>"
    using assms by (intro int64_id; linarith)+
  moreover have "int64 (\<bar>h\<bar> + \<bar>k\<bar> + \<bar>l\<bar>) = \<bar>h\<bar> + \<bar>k\<bar> + \<bar>l\<bar>"
    using assms by (intro int64_id) linarith+
  ultimately show ?thesis by (simp add: sum_abs_def)
qed

lemma representative_first_minimum:
  assumes "g \<noteq> []"
  shows "\<exists>p < length g. clique_representative hkl g = g ! p
           \<and> (\<forall>q < length g. sum_abs (hkl ! (g ! p)) \<le> sum_abs (hkl ! (g ! q)))
           \<and> (\<forall>q < p. sum_abs (hkl ! (g ! p)) < sum_abs (hkl ! (g ! q)))"
proof -
  let ?f = "map (\<lambda>i. sum_abs (hkl ! i)) g"
  let ?p = "argmin ?f"
  have p: "?p < length g" using argmin_less [of ?f] assms by simp
  have least: "\<forall>q < length g. sum_abs (hkl ! (g ! ?p)) \<le> sum_abs (hkl ! (g ! q))"
  proof (intro allI impI)
    fix q assume q: "q < length g"
    then have "?f ! ?p \<le> ?f ! q" using argmin_least [of q ?f] by simp
    with p q show "sum_abs (hkl ! (g ! ?p)) \<le> sum_abs (hkl ! (g ! q))" by simp
  qed
  have first: "\<forall>q < ?p. sum_abs (hkl ! (g ! ?p)) < sum_abs (hkl ! (g ! q))"
  proof (intro allI impI)
    fix q assume q: "q < ?p"
    then have "?f ! ?p < ?f ! q" by (rule argmin_first)
    with p q show "sum_abs (hkl ! (g ! ?p)) < sum_abs (hkl ! (g ! q))" by simp
  qed
  from p least first show ?thesis
    by (intro exI [of _ ?p]) (simp add: clique_representative_def)
qed

lemma representative_lowest_index:
  assumes "g \<noteq> []" "sorted g" "m \<in> set g"
    "sum_abs (hkl ! m) = sum_abs (hkl ! clique_representative hkl g)"
  shows "clique_representative hkl g \<le> m"
proof -
  from representative_first_minimum [OF assms(1), of hkl] obtain p where
    p: "p < length g" "clique_representative hkl g = g ! p"
       "\<forall>q < p. sum_abs (hkl ! (g ! p)) < sum_abs (hkl ! (g ! q))"
    by blast
  from assms(3) obtain q where q: "q < length g" "m = g ! q" by (auto simp: in_set_conv_nth)
  have "\<not> q < p" using p(2,3) q(2) assms(4) by auto
  then have "p \<le> q" by simp
  then have "g ! p \<le> g ! q" using assms(2) q(1) by (simp add: sorted_iff_nth_mono)
  then show ?thesis using p(2) q(2) by simp
qed

subsection \<open>Groups of parallel vectors\<close>



subsection \<open>Claim C5\<close>




subsection \<open>Claim C6\<close>

text \<open>
  C6, as stated, fails. The sums of absolute values are computed in \<open>int64\<close> and wrap:
  for the parallel vectors \<open>[2\<^sup>6\<^sup>2, 2\<^sup>6\<^sup>2, 2\<^sup>6\<^sup>2]\<close> and \<open>[1,1,1]\<close> the first sum wraps to
  a negative number, so the first vector is kept and \<open>[1,1,1]\<close>, whose sum of absolute
  values is the smaller one, is removed.
\<close>

theorem FilterHarmonics_2_representative_counterexample:
  "FilterHarmonics_2 angle_is_0
      [(4611686018427387904, 4611686018427387904, 4611686018427387904), (1, 1, 1)]
     = [(4611686018427387904, 4611686018427387904, 4611686018427387904)]
   \<and> \<bar>1\<bar> + \<bar>1\<bar> + \<bar>1\<bar>
       < \<bar>4611686018427387904\<bar> + \<bar>4611686018427387904\<bar> + \<bar>4611686018427387904 :: int\<bar>
   \<and> (4611686018427387904 :: int) = 2 ^ 62"
proof -
  let ?big = "(4611686018427387904, 4611686018427387904, 4611686018427387904) :: hkl"
  let ?hkl = "[?big, (1, 1, 1)] :: hkl list"
  have sd: "same_direction ?big ?big" "same_direction ?big (1, 1, 1)"
    "same_direction (1, 1, 1) ?big" "same_direction (1, 1, 1) (1, 1, 1)"
    by (simp_all add: same_direction_def dot_def)
  then have "\<forall>a \<in> set ?hkl. \<forall>b \<in> set ?hkl. angle_is_0 a b = same_direction a b"
    by (simp add: same_direction_angle_is_0)
  then have "FilterHarmonics_2 angle_is_0 ?hkl = FilterHarmonics_2 same_direction ?hkl"
    by (rule FilterHarmonics_2_cong)
  also have "\<dots> = [?big]" by code_simp
  finally show ?thesis by simp
qed

text \<open>
  C6, amended. Every harmonic group found has more than one member. One member of it
  is kept, the representative: it is the first member, in the order in which
  \<open>getSets\<close> lists the group, whose sum of absolute values of the three components,
  computed in \<open>int64\<close>, is the least in the group. Every other member of the group is
  removed, only members of groups are removed, and the output is the input without the
  removed indices, in the original order. The \<open>int64\<close> sum is the sum of absolute
  values whenever that sum is below \<open>2\<^sup>6\<^sup>3\<close>, and the first minimum of a group listed
  in ascending order is the lowest index among the members with the least sum.
\<close>

theorem FilterHarmonics_2_representative:
  "(\<forall>g \<in> set (cliques_of_harmonics angle0 hkl).
      1 < length g
      \<and> (\<exists>p < length g. clique_representative hkl g = g ! p
            \<and> g ! p \<notin> set (toremove angle0 hkl)
            \<and> (\<forall>q < length g. sum_abs (hkl ! (g ! p)) \<le> sum_abs (hkl ! (g ! q)))
            \<and> (\<forall>q < p. sum_abs (hkl ! (g ! p)) < sum_abs (hkl ! (g ! q)))
            \<and> (\<forall>m \<in> set g. m \<noteq> g ! p \<longrightarrow> m \<in> set (toremove angle0 hkl))))
   \<and> (\<forall>i \<in> set (toremove angle0 hkl). \<exists>g \<in> set (cliques_of_harmonics angle0 hkl). i \<in> set g)
   \<and> FilterHarmonics_2 angle0 hkl = nths hkl {i. i \<notin> set (toremove angle0 hkl)}
   \<and> (\<forall>h k l. \<bar>h\<bar> + \<bar>k\<bar> + \<bar>l\<bar> < 2 ^ 63 \<longrightarrow> sum_abs (h, k, l) = \<bar>h\<bar> + \<bar>k\<bar> + \<bar>l\<bar>)
   \<and> (\<forall>clique. clique \<noteq> [] \<and> sorted clique \<longrightarrow>
         (\<forall>m \<in> set clique.
            sum_abs (hkl ! m) = sum_abs (hkl ! clique_representative hkl clique)
            \<longrightarrow> clique_representative hkl clique \<le> m))"
proof (intro conjI ballI)
  fix g assume g: "g \<in> set (cliques_of_harmonics angle0 hkl)"
  show "1 < length g" using g by (rule group_size)
  let ?r = "clique_representative hkl g"
  note wf = group_wf [OF g]
  have rg: "?r \<in> set g" using representative_props(1) [OF wf] .
  have keep: "?r \<notin> set (toremove angle0 hkl)"
  proof
    assume "?r \<in> set (toremove angle0 hkl)"
    then obtain h where h: "h \<in> set (cliques_of_harmonics angle0 hkl)" "?r \<in> set h"
      "?r \<noteq> clique_representative hkl h"
      using toremove_iff by blast
    have "g = h"
      using groups_disjoint g h(1,2) rg unfolding cliques_of_harmonics_def by blast
    with h(3) show False by simp
  qed
  have others: "\<forall>m \<in> set g. m \<noteq> ?r \<longrightarrow> m \<in> set (toremove angle0 hkl)"
    using toremove_iff g by blast
  from representative_first_minimum [OF wf(1), of hkl] obtain p where
    p: "p < length g" "?r = g ! p"
       "\<forall>q < length g. sum_abs (hkl ! (g ! p)) \<le> sum_abs (hkl ! (g ! q))"
       "\<forall>q < p. sum_abs (hkl ! (g ! p)) < sum_abs (hkl ! (g ! q))"
    by blast
  have "g ! p \<notin> set (toremove angle0 hkl)" using keep p(2) by simp
  moreover have "\<forall>m \<in> set g. m \<noteq> g ! p \<longrightarrow> m \<in> set (toremove angle0 hkl)"
    using others p(2) by simp
  ultimately show "\<exists>p < length g. clique_representative hkl g = g ! p
            \<and> g ! p \<notin> set (toremove angle0 hkl)
            \<and> (\<forall>q < length g. sum_abs (hkl ! (g ! p)) \<le> sum_abs (hkl ! (g ! q)))
            \<and> (\<forall>q < p. sum_abs (hkl ! (g ! p)) < sum_abs (hkl ! (g ! q)))
            \<and> (\<forall>m \<in> set g. m \<noteq> g ! p \<longrightarrow> m \<in> set (toremove angle0 hkl))"
    using p by blast
next
  fix i assume "i \<in> set (toremove angle0 hkl)"
  then show "\<exists>g \<in> set (cliques_of_harmonics angle0 hkl). i \<in> set g"
    using toremove_iff by blast
next
  show "FilterHarmonics_2 angle0 hkl = nths hkl {i. i \<notin> set (toremove angle0 hkl)}"
    by (simp add: FilterHarmonics_2_np_delete np_delete_nths)
next
  show "\<forall>h k l. \<bar>h\<bar> + \<bar>k\<bar> + \<bar>l\<bar> < 2 ^ 63 \<longrightarrow> sum_abs (h, k, l) = \<bar>h\<bar> + \<bar>k\<bar> + \<bar>l\<bar>"
    using sum_abs_no_wrap by blast
next
  show "\<forall>clique. clique \<noteq> [] \<and> sorted clique \<longrightarrow>
         (\<forall>m \<in> set clique.
            sum_abs (hkl ! m) = sum_abs (hkl ! clique_representative hkl clique)
            \<longrightarrow> clique_representative hkl clique \<le> m)"
    using representative_lowest_index by blast
qed

theorem FilterHarmonics_2_representative_witness:
  "cliques_of_harmonics angle_is_0
      [(2, 2, 2), (1, 1, 1), (- 1, - 1, - 1), (3, 3, 3), (0, 0, 1), (0, 0, 0), (0, 0, 2),
       (- 2, - 2, - 2), (1, 1, 1)]
     = [[0, 1, 3, 8], [2, 7], [4, 6]]
   \<and> toremove angle_is_0
      [(2, 2, 2), (1, 1, 1), (- 1, - 1, - 1), (3, 3, 3), (0, 0, 1), (0, 0, 0), (0, 0, 2),
       (- 2, - 2, - 2), (1, 1, 1)]
     = [0, 3, 6, 7, 8]
   \<and> FilterHarmonics_2 angle_is_0
      [(2, 2, 2), (1, 1, 1), (- 1, - 1, - 1), (3, 3, 3), (0, 0, 1), (0, 0, 0), (0, 0, 2),
       (- 2, - 2, - 2), (1, 1, 1)]
     = [(1, 1, 1), (- 1, - 1, - 1), (0, 0, 1), (0, 0, 0)]
   \<and> sum_abs (- 2, - 2, - 2) = 6"
proof -
  let ?hkl = "[(2, 2, 2), (1, 1, 1), (- 1, - 1, - 1), (3, 3, 3), (0, 0, 1), (0, 0, 0), (0, 0, 2),
       (- 2, - 2, - 2), (1, 1, 1)] :: hkl list"
  have b: "\<forall>v \<in> set ?hkl. dot v v \<le> 10 ^ 6" by (simp add: dot_def)
  note ag = angle_is_0_exact_on [OF b]
  have "cliques_of_harmonics angle_is_0 ?hkl = cliques_of_harmonics same_direction ?hkl"
    by (rule cliques_of_harmonics_cong [OF ag])
  also have "\<dots> = [[0, 1, 3, 8], [2, 7], [4, 6]]" by code_simp
  finally have g: "cliques_of_harmonics angle_is_0 ?hkl = [[0, 1, 3, 8], [2, 7], [4, 6]]" .
  have "toremove angle_is_0 ?hkl = toremove same_direction ?hkl"
    by (rule toremove_cong [OF ag])
  also have "\<dots> = [0, 3, 6, 7, 8]" by code_simp
  finally have r: "toremove angle_is_0 ?hkl = [0, 3, 6, 7, 8]" .
  have "FilterHarmonics_2 angle_is_0 ?hkl = FilterHarmonics_2 same_direction ?hkl"
    by (rule FilterHarmonics_2_cong [OF ag])
  also have "\<dots> = [(1, 1, 1), (- 1, - 1, - 1), (0, 0, 1), (0, 0, 0)]" by code_simp
  finally have ev: "FilterHarmonics_2 angle_is_0 ?hkl
                      = [(1, 1, 1), (- 1, - 1, - 1), (0, 0, 1), (0, 0, 0)]" .
  from FilterHarmonics_2_representative [of angle_is_0 ?hkl]
  have "\<forall>h k l. \<bar>h\<bar> + \<bar>k\<bar> + \<bar>l\<bar> < 2 ^ 63 \<longrightarrow> sum_abs (h, k, l) = \<bar>h\<bar> + \<bar>k\<bar> + \<bar>l\<bar>"
    by blast
  then have s: "sum_abs (- 2, - 2, - 2) = 6" by simp
  from g r ev s show ?thesis by (intro conjI)
qed

subsection \<open>Claim C7\<close>

text \<open>
  C7. Filtering the output of \<open>FilterHarmonics_2\<close> again returns it unchanged, for
  every input and every test \<open>angle0\<close> of the rounded angle.
\<close>

theorem FilterHarmonics_2_idempotent:
  "FilterHarmonics_2 angle0 (FilterHarmonics_2 angle0 hkl) = FilterHarmonics_2 angle0 hkl"
proof -
  let ?out = "np_delete hkl (toremove angle0 hkl)"
  have "FilterHarmonics_2 angle0 ?out = np_delete ?out (toremove angle0 ?out)"
    by (rule FilterHarmonics_2_np_delete)
  also have "\<dots> = ?out"
    by (simp add: no_pairs_toremove [OF kept_no_pairs] np_delete_Nil)
  finally show ?thesis by (simp add: FilterHarmonics_2_np_delete)
qed

theorem FilterHarmonics_2_idempotent_witness:
  "FilterHarmonics_2 angle_is_0 [(2, 0, 0), (0, 3, 0), (1, 0, 0), (0, 1, 0), (- 1, 0, 0)]
     = [(1, 0, 0), (0, 1, 0), (- 1, 0, 0)]
   \<and> FilterHarmonics_2 angle_is_0 [(1, 0, 0), (0, 1, 0), (- 1, 0, 0)]
     = [(1, 0, 0), (0, 1, 0), (- 1, 0, 0)]"
proof -
  let ?hkl = "[(2, 0, 0), (0, 3, 0), (1, 0, 0), (0, 1, 0), (- 1, 0, 0)] :: hkl list"
  have b: "\<forall>v \<in> set ?hkl. dot v v \<le> 10 ^ 6" by (simp add: dot_def)
  have "FilterHarmonics_2 angle_is_0 ?hkl = FilterHarmonics_2 same_direction ?hkl"
    by (rule FilterHarmonics_2_cong [OF angle_is_0_exact_on [OF b]])
  also have "\<dots> = [(1, 0, 0), (0, 1, 0), (- 1, 0, 0)]" by code_simp
  finally have ev: "FilterHarmonics_2 angle_is_0 ?hkl = [(1, 0, 0), (0, 1, 0), (- 1, 0, 0)]" .
  from FilterHarmonics_2_idempotent [of angle_is_0 ?hkl] ev show ?thesis by simp
qed

end
